theory Spec2Isabelle
  imports Complex_Main "HOL-Library.AList"
begin

chapter \<open>Model\<close>

section \<open>Python strings\<close>

text \<open>
  Generated text, file paths and event names are Python \<open>str\<close> values; they are modelled
  as \<open>string\<close> (a list of characters) and are taken to be ASCII text: \<open>py_lower\<close> and
  \<open>is_space\<close> treat the ASCII range as Python does and leave every other character alone.
\<close>

definition is_space :: "char \<Rightarrow> bool" where
  \<comment> \<open>\<open>str.isspace\<close> on the ASCII range: tab, LF, VT, FF, CR, FS, GS, RS, US and the blank\<close>
  "is_space c = (c \<in> set [CHR 0x09, CHR 0x0A, CHR 0x0B, CHR 0x0C, CHR 0x0D,
                            CHR 0x1C, CHR 0x1D, CHR 0x1E, CHR 0x1F, CHR 0x20])"

definition py_strip :: "string \<Rightarrow> string" where
  \<comment> \<open>\<open>s.strip()\<close>\<close>
  "py_strip s = rev (dropWhile is_space (rev (dropWhile is_space s)))"

definition lower_char :: "char \<Rightarrow> char" where
  "lower_char c =
     (let n = of_char c :: nat in if 65 \<le> n \<and> n \<le> 90 then char_of (n + 32) else c)"

definition py_lower :: "string \<Rightarrow> string" where
  \<comment> \<open>\<open>s.lower()\<close>\<close>
  "py_lower s = map lower_char s"

fun startswith :: "string \<Rightarrow> string \<Rightarrow> bool" where
  \<comment> \<open>\<open>s.startswith(p)\<close>\<close>
  "startswith s [] = True"
| "startswith [] (p # ps) = False"
| "startswith (c # cs) (p # ps) = (c = p \<and> startswith cs ps)"

definition endswith :: "string \<Rightarrow> string \<Rightarrow> bool" where
  \<comment> \<open>\<open>s.endswith(p)\<close>\<close>
  "endswith s p = startswith (rev s) (rev p)"

fun py_in :: "string \<Rightarrow> string \<Rightarrow> bool" where
  \<comment> \<open>\<open>p in s\<close>: \<open>p\<close> occurs in \<open>s\<close> as a substring\<close>
  "py_in p [] = (p = [])"
| "py_in p (c # cs) = (startswith (c # cs) p \<or> py_in p cs)"

definition py_count :: "string \<Rightarrow> char \<Rightarrow> nat" where
  \<comment> \<open>\<open>s.count(c)\<close> for a one-character \<open>c\<close>\<close>
  "py_count s c = length (filter (\<lambda>x. x = c) s)"

definition py_slice_to :: "'a list \<Rightarrow> int \<Rightarrow> 'a list" where
  \<comment> \<open>\<open>xs[:k]\<close>; a negative \<open>k\<close> counts from the end\<close>
  "py_slice_to xs k = (if 0 \<le> k then take (nat k) xs else take (nat (int (length xs) + k)) xs)"

section \<open>Context chunks and the token budget (base\_handler.py)\<close>

record ContextChunk =
  chunk_id :: string
  chunk_type :: string
  content :: string
  priority :: int
  tokens_estimate :: int
  created_at :: string

definition truncation_marker :: string where
  "truncation_marker = CHR 0x0A # ''... [TRUNCATED FOR TOKEN LIMIT]''"

definition truncate_chunk :: "int \<Rightarrow> int \<Rightarrow> ContextChunk \<Rightarrow> ContextChunk" where
  \<comment> \<open>the body of the \<open>elif chunk.priority == 1\<close> branch\<close>
  "truncate_chunk max_tokens current_tokens chunk =
     (let truncated_content = py_slice_to (content chunk) ((max_tokens - current_tokens) * 4);
          new_content = truncated_content @ truncation_marker
      in chunk\<lparr>content := new_content, tokens_estimate := int (length new_content) div 4\<rparr>)"

fun optimize_loop ::
  "int \<Rightarrow> ContextChunk list \<Rightarrow> ContextChunk list \<Rightarrow> int \<Rightarrow> ContextChunk list" where
  \<comment> \<open>the \<open>for chunk in chunks\<close> loop; the priority-1 branch ends with \<open>break\<close>\<close>
  "optimize_loop max_tokens [] optimized_chunks current_tokens = optimized_chunks"
| "optimize_loop max_tokens (chunk # chunks) optimized_chunks current_tokens =
     (if current_tokens + tokens_estimate chunk \<le> max_tokens
      then optimize_loop max_tokens chunks (optimized_chunks @ [chunk])
             (current_tokens + tokens_estimate chunk)
      else if priority chunk = 1
      then optimized_chunks @ [truncate_chunk max_tokens current_tokens chunk]
      else optimize_loop max_tokens chunks optimized_chunks current_tokens)"

definition optimize_chunks_for_tokens :: "int \<Rightarrow> ContextChunk list \<Rightarrow> ContextChunk list" where
  \<comment> \<open>\<open>_optimize_chunks_for_tokens\<close>; the first argument is \<open>self.max_tokens_per_request\<close>.
     \<open>list.sort\<close> is stable, as \<open>sort_key\<close> is.\<close>
  "optimize_chunks_for_tokens max_tokens chunks0 =
     (let chunks = sort_key priority chunks0;
          total_tokens = sum_list (map tokens_estimate chunks)
      in if total_tokens \<le> max_tokens then chunks
         else optimize_loop max_tokens chunks [] 0)"

definition mk_chunk :: "string \<Rightarrow> string \<Rightarrow> string \<Rightarrow> int \<Rightarrow> ContextChunk" where
  \<comment> \<open>a chunk as \<open>_prepare_context_chunks\<close> builds it: the estimate is \<open>len(content) // 4\<close>\<close>
  "mk_chunk cid ctype text prio =
     \<lparr>chunk_id = cid, chunk_type = ctype, content = text, priority = prio,
      tokens_estimate = int (length text) div 4, created_at = ''''\<rparr>"

section \<open>The contract registry (contract\_registry.py)\<close>

text \<open>
  A Python \<open>dict\<close> is an association list in insertion order with pairwise distinct keys:
  \<open>d[k] = v\<close> is \<open>AList.update k v d\<close> (the value is replaced in place when the key is
  there, the pair is appended otherwise), \<open>d.get(k)\<close> is \<open>map_of d k\<close>, \<open>d.values()\<close> is
  \<open>map snd d\<close>. Schemas are opaque to the registry and kept as text. Writing the contract
  to disk (\<open>_save_contract_to_disk\<close>) does not change the registry and is left out.
\<close>

record APIEndpoint =
  http_method :: string  \<comment> \<open>the field \<open>method\<close>\<close>
  path :: string
  input_schema :: string
  output_schema :: string
  authentication_required :: bool
  rate_limit :: int
  description :: string
  handler_type :: string

record DataModel =
  name :: string
  schema :: string
  relationships :: "string list option"
  table_name :: "string option"
  indexes :: "string list option"
  constraints :: "string list option"

record FeatureContract =
  feature_name :: string
  endpoints :: "APIEndpoint list"
  models :: "DataModel list"
  dependencies :: "string list option"
  security_requirements :: "string list option"
  created_by :: "string option"
  created_at_c :: "string option"

record APIContractRegistry =
  feature_contracts :: "(string \<times> FeatureContract) list"
  endpoint_registry :: "(string \<times> APIEndpoint) list"
  model_registry :: "(string \<times> DataModel) list"
  dependency_graph :: "(string \<times> string list) list"

definition new_registry :: APIContractRegistry where
  \<comment> \<open>\<open>__init__\<close>: the four in-memory registries start empty\<close>
  "new_registry = \<lparr>feature_contracts = [], endpoint_registry = [], model_registry = [],
                    dependency_graph = []\<rparr>"

definition endpoint_key :: "APIEndpoint \<Rightarrow> string" where
  \<comment> \<open>\<open>f"{endpoint.method} {endpoint.path}"\<close>\<close>
  "endpoint_key ep = http_method ep @ '' '' @ path ep"

definition index_endpoints ::
  "APIEndpoint list \<Rightarrow> (string \<times> APIEndpoint) list \<Rightarrow> (string \<times> APIEndpoint) list" where
  \<comment> \<open>\<open>for endpoint in contract.endpoints: self.endpoint_registry[key] = endpoint\<close>\<close>
  "index_endpoints eps reg = fold (\<lambda>ep. AList.update (endpoint_key ep) ep) eps reg"

definition index_models ::
  "DataModel list \<Rightarrow> (string \<times> DataModel) list \<Rightarrow> (string \<times> DataModel) list" where
  \<comment> \<open>\<open>for model in contract.models: self.model_registry[model.name] = model\<close>\<close>
  "index_models ms reg = fold (\<lambda>m. AList.update (name m) m) ms reg"

definition register_feature_contract ::
  "string \<Rightarrow> FeatureContract \<Rightarrow> APIContractRegistry \<Rightarrow> APIContractRegistry" where
  \<comment> \<open>\<open>register_feature_contract\<close>; \<open>now\<close> is \<open>datetime.utcnow().isoformat()\<close>. A set of
     dependencies is a duplicate-free list; \<open>if contract.dependencies\<close> is false for \<open>None\<close>
     and for the empty list.\<close>
  "register_feature_contract now contract r =
     (let contract' = contract\<lparr>created_at_c := Some now\<rparr>
      in r\<lparr>feature_contracts := AList.update (feature_name contract') contract' (feature_contracts r),
           endpoint_registry := index_endpoints (endpoints contract') (endpoint_registry r),
           model_registry := index_models (models contract') (model_registry r),
           dependency_graph :=
             (case dependencies contract' of
                None \<Rightarrow> dependency_graph r
              | Some deps \<Rightarrow>
                  if deps = [] then dependency_graph r
                  else AList.update (feature_name contract') (remdups deps) (dependency_graph r))\<rparr>)"

definition register_all ::
  "(string \<times> FeatureContract) list \<Rightarrow> APIContractRegistry \<Rightarrow> APIContractRegistry" where
  \<comment> \<open>a sequence of \<open>register_feature_contract\<close> calls, each with its time stamp\<close>
  "register_all calls r = fold (\<lambda>(now, contract). register_feature_contract now contract) calls r"

definition get_feature_contract :: "APIContractRegistry \<Rightarrow> string \<Rightarrow> FeatureContract option" where
  "get_feature_contract r feature = map_of (feature_contracts r) feature"

definition get_all_endpoints :: "APIContractRegistry \<Rightarrow> APIEndpoint list" where
  \<comment> \<open>\<open>list(self.endpoint_registry.values())\<close>\<close>
  "get_all_endpoints r = map snd (endpoint_registry r)"

definition get_all_models :: "APIContractRegistry \<Rightarrow> DataModel list" where
  "get_all_models r = map snd (model_registry r)"

text \<open>
  \<open>_has_circular_dependency\<close> recurses through the graph and mutates one shared \<open>visited\<close>
  set: the set is threaded through the calls and returned with the answer. The recursion
  is bounded by an explicit depth \<open>n\<close>; \<open>None\<close> says the bound was reached. The inner function
  is the \<open>for dep in dependencies\<close> loop, which returns as soon as a recursive call reports a
  cycle (leaving \<open>visited\<close> as it is at that moment).
\<close>

fun has_circular_dependency ::
    "nat \<Rightarrow> (string \<times> string list) list \<Rightarrow> string \<Rightarrow> string list \<Rightarrow> string set
      \<Rightarrow> (bool \<times> string set) option"
  and circular_loop ::
    "nat \<Rightarrow> (string \<times> string list) list \<Rightarrow> string list \<Rightarrow> string set
      \<Rightarrow> (bool \<times> string set) option" where
  "has_circular_dependency 0 g feature deps visited = None"
| "has_circular_dependency (Suc n) g feature deps visited =
     (if feature \<in> visited then Some (True, visited)
      else (case circular_loop n g deps (insert feature visited) of
              None \<Rightarrow> None
            | Some (True, visited') \<Rightarrow> Some (True, visited')
            | Some (False, visited') \<Rightarrow> Some (False, visited' - {feature})))"
| "circular_loop n g [] visited = Some (False, visited)"
| "circular_loop n g (dep # deps) visited =
     (case map_of g dep of
        None \<Rightarrow> circular_loop n g deps visited
      | Some dep_deps \<Rightarrow>
          (case has_circular_dependency n g dep dep_deps visited of
             None \<Rightarrow> None
           | Some (True, visited') \<Rightarrow> Some (True, visited')
           | Some (False, visited') \<Rightarrow> circular_loop n g deps visited'))"

record consistency_issues =
  missing_endpoints :: "string list"
  missing_models :: "string list"
  dependency_conflicts :: "string list"
  naming_conflicts :: "string list"

fun check_dependency_cycles ::
  "(string \<times> string list) list \<Rightarrow> (string \<times> string list) list \<Rightarrow> string list option" where
  \<comment> \<open>\<open>for feature, deps in self.dependency_graph.items()\<close>: each top-level call starts
     with a fresh \<open>visited\<close> set\<close>
  "check_dependency_cycles g [] = Some []"
| "check_dependency_cycles g ((feature, deps) # items) =
     (case has_circular_dependency (Suc (length g)) g feature deps {} of
        None \<Rightarrow> None
      | Some (cyclic, visited') \<Rightarrow>
          (case check_dependency_cycles g items of
             None \<Rightarrow> None
           | Some conflicts \<Rightarrow>
               Some ((if cyclic then [''Circular dependency in '' @ feature] else []) @ conflicts)))"

definition validate_cross_stack_consistency :: "APIContractRegistry \<Rightarrow> consistency_issues option" where
  \<comment> \<open>\<open>validate_cross_stack_consistency\<close>; \<open>None\<close> only if a cycle check did not finish\<close>
  "validate_cross_stack_consistency r =
     (let endpoint_paths = map (path \<circ> snd) (endpoint_registry r);
          naming = (if length endpoint_paths \<noteq> card (set endpoint_paths)
                    then [''Duplicate endpoint paths detected''] else [])
      in (case check_dependency_cycles (dependency_graph r) (dependency_graph r) of
            None \<Rightarrow> None
          | Some conflicts \<Rightarrow>
              Some \<lparr>missing_endpoints = [], missing_models = [],
                    dependency_conflicts = conflicts, naming_conflicts = naming\<rparr>))"

definition dep_edge :: "(string \<times> string list) list \<Rightarrow> string \<Rightarrow> string \<Rightarrow> bool" where
  \<comment> \<open>feature \<open>a\<close> lists \<open>b\<close> among its dependencies\<close>
  "dep_edge g a b = (case map_of g a of None \<Rightarrow> False | Some ds \<Rightarrow> b \<in> set ds)"

definition acyclic_deps :: "(string \<times> string list) list \<Rightarrow> bool" where
  \<comment> \<open>no feature reaches itself along one or more dependency edges\<close>
  "acyclic_deps g = (\<forall>a. \<not> (dep_edge g)\<^sup>+\<^sup>+ a a)"

definition declares :: "FeatureContract \<Rightarrow> bool" where
  \<comment> \<open>the truth value of \<open>contract.dependencies\<close>: a list that is not empty\<close>
  "declares c = (case dependencies c of None \<Rightarrow> False | Some deps \<Rightarrow> deps \<noteq> [])"

definition declared_dependency :: "APIContractRegistry \<Rightarrow> string \<Rightarrow> string \<Rightarrow> bool" where
  \<comment> \<open>the contract that the registry holds for feature \<open>a\<close> lists \<open>b\<close> among its
     dependencies\<close>
  "declared_dependency r a b =
     (case map_of (feature_contracts r) a of
        None \<Rightarrow> False
      | Some c \<Rightarrow> (case dependencies c of None \<Rightarrow> False | Some deps \<Rightarrow> b \<in> set deps))"

fun dependencies_kept :: "FeatureContract list \<Rightarrow> bool" where
  \<comment> \<open>in a sequence of registrations, a contract with dependencies is never followed by a
     contract for the same feature without\<close>
  "dependencies_kept [] = True"
| "dependencies_kept (c # later) =
     ((declares c \<longrightarrow> (\<forall>c' \<in> set later. feature_name c' = feature_name c \<longrightarrow> declares c'))
      \<and> dependencies_kept later)"

definition mk_endpoint :: "string \<Rightarrow> string \<Rightarrow> string \<Rightarrow> APIEndpoint" where
  \<comment> \<open>\<open>APIEndpoint(method=m, path=p, input_schema={}, output_schema={}, description=d)\<close>,
     the other fields at the dataclass defaults\<close>
  "mk_endpoint m p d =
     \<lparr>http_method = m, path = p, input_schema = ''{}'', output_schema = ''{}'',
      authentication_required = True, rate_limit = 100, description = d,
      handler_type = ''backend''\<rparr>"

definition mk_contract :: "string \<Rightarrow> APIEndpoint list \<Rightarrow> string list option \<Rightarrow> FeatureContract" where
  \<comment> \<open>\<open>FeatureContract(feature_name=f, endpoints=eps, models=[], dependencies=deps,
     created_by="node_backend")\<close>\<close>
  "mk_contract f eps deps =
     \<lparr>feature_name = f, endpoints = eps, models = [], dependencies = deps,
      security_requirements = None, created_by = Some ''node_backend'', created_at_c = None\<rparr>"

section \<open>The event bus (event\_bus.py)\<close>

text \<open>
  A subscriber is a Python callable. Two kinds reach the bus: a callback that some component
  passes to \<open>subscribe\<close> (opaque to the bus; whatever it does or raises is swallowed by
  \<open>_safe_callback\<close>), and the closure that \<open>wait_for_event\<close> creates around its future.
  Futures live on the heap, not in the bus object; they are kept in a list, a future's
  number being its index. The list \<open>invocations\<close> is not program state: it records, in
  order, each call of a callback together with the event it received. Event ids, time stamps
  and fresh correlation ids come from \<open>uuid4\<close> and the clock and are arguments of \<open>publish\<close>.
  The timer task that \<open>wait_for_event\<close> starts is the separate step \<open>timeout_future\<close>, taken
  when (and if) the timeout elapses.
\<close>

datatype callback = Handler string | Waiter nat

record HandlerEvent =
  event_id :: string
  event_type :: string
  data :: string
  source_handler :: string
  timestamp :: string
  correlation_id :: string

datatype future_state =
    Pending
  | Result HandlerEvent
  | TimeoutError nat  \<comment> \<open>\<open>asyncio.TimeoutError(f"Event wait timeout after {timeout}s")\<close>\<close>

record HandlerEventBus =
  subscribers :: "(string \<times> callback list) list"
  event_history :: "HandlerEvent list"
  active_correlations :: "(string \<times> string list) list"
  max_history_size :: nat
  futures :: "future_state list"
  invocations :: "(callback \<times> HandlerEvent) list"

definition new_event_bus :: HandlerEventBus where
  \<comment> \<open>\<open>__init__\<close>\<close>
  "new_event_bus = \<lparr>subscribers = [], event_history = [], active_correlations = [],
                      max_history_size = 1000, futures = [], invocations = []\<rparr>"

definition subscribers_of :: "HandlerEventBus \<Rightarrow> string \<Rightarrow> callback list" where
  \<comment> \<open>\<open>self.subscribers.get(event_type, [])\<close>\<close>
  "subscribers_of bus et = (case map_of (subscribers bus) et of None \<Rightarrow> [] | Some cbs \<Rightarrow> cbs)"

definition subscribe :: "string \<Rightarrow> callback \<Rightarrow> HandlerEventBus \<Rightarrow> HandlerEventBus" where
  \<comment> \<open>\<open>subscribe\<close>: create the list if the event type is new, then append\<close>
  "subscribe et cb bus =
     bus\<lparr>subscribers := AList.update et (subscribers_of bus et @ [cb]) (subscribers bus)\<rparr>"

definition safe_callback :: "HandlerEvent \<Rightarrow> callback \<Rightarrow> HandlerEventBus \<Rightarrow> HandlerEventBus" where
  \<comment> \<open>\<open>_safe_callback\<close>: call the callback; the closure of \<open>wait_for_event\<close> resolves its
     future unless it is done\<close>
  "safe_callback event cb bus =
     (let bus' = bus\<lparr>invocations := invocations bus @ [(cb, event)]\<rparr>
      in case cb of
           Handler h \<Rightarrow> bus'
         | Waiter fid \<Rightarrow>
             if fid < length (futures bus') \<and> futures bus' ! fid = Pending
             then bus'\<lparr>futures := (futures bus')[fid := Result event]\<rparr>
             else bus')"

definition new_event ::
  "string \<Rightarrow> string \<Rightarrow> string \<Rightarrow> string option \<Rightarrow> string \<Rightarrow> string \<Rightarrow> string
     \<Rightarrow> HandlerEvent" where
  \<comment> \<open>the \<open>HandlerEvent(...)\<close> built by \<open>publish\<close>; \<open>eid\<close> and \<open>fresh\<close> are the two \<open>uuid4\<close>
     values, \<open>now\<close> the clock reading; \<open>correlation_id or uuid4()\<close> takes the fresh id for
     \<open>None\<close> and for the empty string\<close>
  "new_event et payload source corr eid now fresh =
     \<lparr>event_id = eid, event_type = et, data = payload, source_handler = source,
      timestamp = now,
      correlation_id = (case corr of None \<Rightarrow> fresh | Some c \<Rightarrow> if c = [] then fresh else c)\<rparr>"

definition publish ::
  "string \<Rightarrow> string \<Rightarrow> string \<Rightarrow> string option \<Rightarrow> string \<Rightarrow> string \<Rightarrow> string
     \<Rightarrow> HandlerEventBus \<Rightarrow> HandlerEventBus" where
  \<comment> \<open>\<open>publish(event_type, data, source_handler, correlation_id)\<close>: history (bounded; the
     slice \<open>[-0:]\<close> is the whole list), correlations, then every subscriber's callback\<close>
  "publish et payload source corr eid now fresh bus =
     (let event = new_event et payload source corr eid now fresh;
          history = event_history bus @ [event];
          history' = (if length history > max_history_size bus
                      then (if max_history_size bus = 0 then history
                            else drop (length history - max_history_size bus) history)
                      else history);
          cid = correlation_id event;
          ids = (case map_of (active_correlations bus) cid of None \<Rightarrow> [] | Some l \<Rightarrow> l);
          bus1 = bus\<lparr>event_history := history',
                     active_correlations :=
                       AList.update cid (ids @ [eid]) (active_correlations bus)\<rparr>
      in fold (safe_callback event) (subscribers_of bus1 et) bus1)"

definition wait_for_event :: "string \<Rightarrow> nat \<Rightarrow> HandlerEventBus \<Rightarrow> HandlerEventBus" where
  \<comment> \<open>\<open>wait_for_event\<close>: a new pending future, whose number is returned to the caller as
     \<open>length (futures bus)\<close>, and a subscription of its closure\<close>
  "wait_for_event et timeout bus =
     subscribe et (Waiter (length (futures bus))) (bus\<lparr>futures := futures bus @ [Pending]\<rparr>)"

definition timeout_future :: "nat \<Rightarrow> nat \<Rightarrow> HandlerEventBus \<Rightarrow> HandlerEventBus" where
  \<comment> \<open>\<open>_timeout_future\<close> after its sleep: fail the future unless it is done\<close>
  "timeout_future fid timeout bus =
     (if fid < length (futures bus) \<and> futures bus ! fid = Pending
      then bus\<lparr>futures := (futures bus)[fid := TimeoutError timeout]\<rparr>
      else bus)"

datatype bus_op =
    Subscribe string string
  | Publish string string string "string option" string string string
  | WaitForEvent string nat
  | TimeoutElapses nat nat

fun bus_step :: "bus_op \<Rightarrow> HandlerEventBus \<Rightarrow> HandlerEventBus" where
  "bus_step (Subscribe et h) bus = subscribe et (Handler h) bus"
| "bus_step (Publish et payload source corr eid now fresh) bus =
     publish et payload source corr eid now fresh bus"
| "bus_step (WaitForEvent et timeout) bus = wait_for_event et timeout bus"
| "bus_step (TimeoutElapses fid timeout) bus = timeout_future fid timeout bus"

definition bus_run :: "bus_op list \<Rightarrow> HandlerEventBus \<Rightarrow> HandlerEventBus" where
  "bus_run ops bus = fold bus_step ops bus"

section \<open>More of Python's strings\<close>

fun split_on :: "char \<Rightarrow> string \<Rightarrow> string list" where
  \<comment> \<open>\<open>s.split(c)\<close> for a one-character separator\<close>
  "split_on c [] = [[]]"
| "split_on c (x # xs) =
     (if x = c then [] # split_on c xs
      else (case split_on c xs of [] \<Rightarrow> [[x]] | w # ws \<Rightarrow> (x # w) # ws))"

fun py_join :: "string \<Rightarrow> string list \<Rightarrow> string" where
  \<comment> \<open>\<open>sep.join(parts)\<close>\<close>
  "py_join sep [] = []"
| "py_join sep [p] = p"
| "py_join sep (p # q # ps) = p @ sep @ py_join sep (q # ps)"

definition py_join_lines :: "string list \<Rightarrow> string" where
  \<comment> \<open>\<open>'\n'.join(lines)\<close>\<close>
  "py_join_lines ls = py_join [CHR 0x0A] ls"

definition py_strip_chars :: "char list \<Rightarrow> string \<Rightarrow> string" where
  \<comment> \<open>\<open>s.strip(chars)\<close>\<close>
  "py_strip_chars cs s =
     rev (dropWhile (\<lambda>c. c \<in> set cs) (rev (dropWhile (\<lambda>c. c \<in> set cs) s)))"

fun index_of :: "char \<Rightarrow> string \<Rightarrow> nat option" where
  \<comment> \<open>\<open>s.find(c)\<close>: the first position of \<open>c\<close>, \<open>None\<close> for Python's \<open>-1\<close>\<close>
  "index_of c [] = None"
| "index_of c (x # xs) =
     (if x = c then Some 0 else (case index_of c xs of None \<Rightarrow> None | Some i \<Rightarrow> Some (Suc i)))"

definition rindex_of :: "char \<Rightarrow> string \<Rightarrow> nat option" where
  \<comment> \<open>\<open>s.rfind(c)\<close>: the last position of \<open>c\<close>\<close>
  "rindex_of c s =
     (case index_of c (rev s) of None \<Rightarrow> None | Some i \<Rightarrow> Some (length s - 1 - i))"

section \<open>Regular expressions (the patterns given to \<open>re.search\<close>)\<close>

text \<open>
  \<open>re.search(pattern, string)\<close> is used for its truth value only, so a pattern is its
  language: the search succeeds iff some substring of the searched string is in it. Patterns are
  terms of \<open>rx\<close>; \<open>WS\<close> is \<open>\s\<close>, \<open>Dot\<close> is \<open>.\<close> (any character but a newline). Matching is
  by derivatives; the flag says whether case is ignored (\<open>re.IGNORECASE\<close>).
\<close>

datatype rx = Nul | Eps | Chr char | WS | Dot | Cat rx rx | Or rx rx | Star rx

fun nullable :: "rx \<Rightarrow> bool" where
  "nullable Nul = False"
| "nullable Eps = True"
| "nullable (Chr c) = False"
| "nullable WS = False"
| "nullable Dot = False"
| "nullable (Cat r s) = (nullable r \<and> nullable s)"
| "nullable (Or r s) = (nullable r \<or> nullable s)"
| "nullable (Star r) = True"

fun deriv :: "bool \<Rightarrow> char \<Rightarrow> rx \<Rightarrow> rx" where
  "deriv ic c Nul = Nul"
| "deriv ic c Eps = Nul"
| "deriv ic c (Chr d) =
     (if (if ic then lower_char c = lower_char d else c = d) then Eps else Nul)"
| "deriv ic c WS = (if is_space c then Eps else Nul)"
| "deriv ic c Dot = (if c = CHR 0x0A then Nul else Eps)"
| "deriv ic c (Cat r s) =
     (if nullable r then Or (Cat (deriv ic c r) s) (deriv ic c s) else Cat (deriv ic c r) s)"
| "deriv ic c (Or r s) = Or (deriv ic c r) (deriv ic c s)"
| "deriv ic c (Star r) = Cat (deriv ic c r) (Star r)"

fun match_prefix :: "bool \<Rightarrow> rx \<Rightarrow> string \<Rightarrow> bool" where
  \<comment> \<open>some prefix of the string is in the language\<close>
  "match_prefix ic r [] = nullable r"
| "match_prefix ic r (c # cs) = (nullable r \<or> match_prefix ic (deriv ic c r) cs)"

fun re_search :: "bool \<Rightarrow> rx \<Rightarrow> string \<Rightarrow> bool" where
  \<comment> \<open>\<open>re.search(r, s) is not None\<close>\<close>
  "re_search ic r [] = nullable r"
| "re_search ic r (c # cs) = (match_prefix ic r (c # cs) \<or> re_search ic r cs)"

definition lit :: "string \<Rightarrow> rx" where
  \<comment> \<open>a run of literal characters\<close>
  "lit s = foldr (\<lambda>c r. Cat (Chr c) r) s Eps"

definition alts :: "rx list \<Rightarrow> rx" where
  \<comment> \<open>\<open>r1|r2|...\<close>\<close>
  "alts rs = foldr Or rs Nul"

definition plus :: "rx \<Rightarrow> rx" where
  \<comment> \<open>\<open>r+\<close>\<close>
  "plus r = Cat r (Star r)"

section \<open>The Node.js handler: quality validation (node\_handler.py)\<close>

text \<open>
  Scores are Python floats; they are modelled as reals. Every deduction is a multiple of
  0.5, so the per-file arithmetic is exact in both.
\<close>

definition error_handling_pattern :: rx where
  \<comment> \<open>\<open>r"try\s*{|catch\s*\(|\.catch\(|next\(|throw\s+new"\<close>\<close>
  "error_handling_pattern =
     alts [Cat (lit ''try'') (Cat (Star WS) (lit ''{'')),
           Cat (lit ''catch'') (Cat (Star WS) (lit ''('')),
           lit ''.catch('', lit ''next('',
           Cat (lit ''throw'') (Cat (plus WS) (lit ''new''))]"

definition validation_pattern :: rx where
  \<comment> \<open>\<open>r"joi\.|validator\.|validate\(|schema\."\<close>\<close>
  "validation_pattern = alts [lit ''joi.'', lit ''validator.'', lit ''validate('', lit ''schema.'']"

definition security_pattern :: rx where
  \<comment> \<open>\<open>r"helmet|cors|sanitize|escape|bcrypt|jwt"\<close>\<close>
  "security_pattern =
     alts [lit ''helmet'', lit ''cors'', lit ''sanitize'', lit ''escape'', lit ''bcrypt'', lit ''jwt'']"

definition logging_pattern :: rx where
  \<comment> \<open>\<open>r"logger\.|console\.|winston|log\("\<close>\<close>
  "logging_pattern = alts [lit ''logger.'', lit ''console.'', lit ''winston'', lit ''log('']"

definition async_await_pattern :: rx where
  \<comment> \<open>\<open>r"async\s+function|await\s+"\<close>\<close>
  "async_await_pattern =
     alts [Cat (lit ''async'') (Cat (plus WS) (lit ''function'')), Cat (lit ''await'') (plus WS)]"

definition middleware_pattern :: rx where
  \<comment> \<open>\<open>r"\.use\(|middleware|next\(\)"\<close>\<close>
  "middleware_pattern = alts [lit ''.use('', lit ''middleware'', lit ''next()'']"

definition status_codes_pattern :: rx where
  \<comment> \<open>\<open>r"\.status\(|res\.json|res\.send"\<close>\<close>
  "status_codes_pattern = alts [lit ''.status('', lit ''res.json'', lit ''res.send'']"

record file_score =
  fs_score :: real  \<comment> \<open>key \<open>"score"\<close>\<close>
  fs_issues :: "string list"  \<comment> \<open>key \<open>"issues"\<close>\<close>
  fs_file_path :: string  \<comment> \<open>key \<open>"file_path"\<close>\<close>

type_synonym check = "bool \<times> real \<times> string"

definition apply_checks :: "check list \<Rightarrow> real \<times> string list" where
  \<comment> \<open>the chain of \<open>if failed: score -= penalty; issues.append(message)\<close> statements,
     starting from \<open>score = 10.0\<close> and \<open>issues = []\<close>\<close>
  "apply_checks checks =
     fold (\<lambda>(failed, penalty, message) (score, issues).
             if failed then (score - penalty, issues @ [message]) else (score, issues))
          checks (10, [])"

definition node_checks :: "string \<Rightarrow> string \<Rightarrow> check list" where
  \<comment> \<open>the checks of \<open>_validate_single_file_quality\<close> in the order of the source: condition
     under which the deduction is made, the deduction, the issue\<close>
  "node_checks file_path body =  \<comment> \<open>\<open>body\<close> is the parameter \<open>content\<close>\<close>
    
     (let lpath = py_lower file_path in
      [(\<not> re_search False error_handling_pattern body,
          2.0, ''CRITICAL: No error handling in '' @ file_path),
       ((py_in ''controller'' lpath \<or> py_in ''route'' lpath)
          \<and> \<not> re_search False validation_pattern body,
          1.5, ''CRITICAL: No input validation in '' @ file_path),
       ((py_in ''auth'' lpath \<or> py_in ''security'' lpath)
          \<and> \<not> re_search False security_pattern body,
          1.5, ''CRITICAL: Missing security patterns in '' @ file_path),
       (\<not> re_search False async_await_pattern body \<and> \<not> py_in ''config'' lpath,
          1.0, ''Missing async/await patterns in '' @ file_path),
       (\<not> re_search False logging_pattern body,
          0.5, ''Missing logging in '' @ file_path),
       (py_in ''controller'' lpath \<and> \<not> re_search False status_codes_pattern body,
          1.0, ''Missing proper HTTP responses in '' @ file_path),
       ((py_in ''app.js'' file_path \<or> py_in ''server.js'' file_path)
          \<and> \<not> re_search False middleware_pattern body,
          1.0, ''Missing middleware setup in '' @ file_path),
       (length (py_strip body) < 100,
          3.0, ''CRITICAL: File too short/incomplete '' @ file_path),
       (py_count body (CHR ''{'') \<noteq> py_count body (CHR ''}''),
          2.0, ''CRITICAL: Bracket mismatch in '' @ file_path)])"

definition validate_single_file_quality :: "string \<Rightarrow> string \<Rightarrow> file_score" where
  \<comment> \<open>\<open>_validate_single_file_quality\<close>\<close>
  "validate_single_file_quality file_path body =
     (if endswith file_path ''.sql'' \<or> endswith file_path ''.env.example''
      then \<lparr>fs_score = 10.0, fs_issues = [], fs_file_path = file_path\<rparr>
      else (let (score, issues) = apply_checks (node_checks file_path body)
            in \<lparr>fs_score = max 0 score, fs_issues = issues, fs_file_path = file_path\<rparr>))"

record quality_metrics =
  total_files :: nat
  average_score :: real
  files_above_8 :: nat
  critical_issues_count :: nat  \<comment> \<open>key \<open>"critical_issues"\<close>\<close>

record code_quality_report =
  cq_overall_score :: real  \<comment> \<open>key \<open>"overall_score"\<close>\<close>
  cq_file_scores :: "(string \<times> file_score) list"  \<comment> \<open>key \<open>"file_scores"\<close>\<close>
  cq_issues :: "string list"  \<comment> \<open>key \<open>"issues"\<close>\<close>
  cq_metrics :: quality_metrics  \<comment> \<open>key \<open>"metrics"\<close>\<close>

definition validate_code_quality :: "(string \<times> string) list \<Rightarrow> code_quality_report" where
  \<comment> \<open>\<open>_validate_code_quality\<close> on the dict \<open>code_files\<close>\<close>
  "validate_code_quality code_files =
     (let scored = map (\<lambda>(fp, body). (fp, validate_single_file_quality fp body))
                       code_files;
          total_score = sum_list (map (fs_score \<circ> snd) scored);
          issues = concat (map (fs_issues \<circ> snd) scored);
          overall_score = (if code_files = [] then 0 else total_score / real (length code_files))
      in \<lparr>cq_overall_score = overall_score,
          cq_file_scores = scored,
          cq_issues = issues,
          cq_metrics = \<lparr>total_files = length code_files,
                        average_score = overall_score,
                        files_above_8 = length (filter (\<lambda>(p, fs). fs_score fs \<ge> 8.0) scored),
                        critical_issues_count =
                          length (filter (\<lambda>i. startswith i ''CRITICAL'') issues)\<rparr>\<rparr>)"

section \<open>The Node.js handler: reading the oracle's answer (node\_handler.py)\<close>

text \<open>
  \<open>json.loads\<close> and the two-group \<open>re.findall\<close> over the file pattern belong to Python's
  library; they are parameters of the functions that call them. A JSON value is what
  \<open>json.loads\<close> returns, an object keeping its members in textual order; making the Python
  \<open>dict\<close> of it lets a repeated key keep its first position and its last value.
\<close>

datatype json_value =
    JObject "(string \<times> json_value) list"
  | JArray "json_value list"
  | JString string
  | JNumber string
  | JBool bool
  | JNull

definition py_dict :: "('k \<times> 'v) list \<Rightarrow> ('k \<times> 'v) list" where
  \<comment> \<open>the \<open>dict\<close> built from key/value pairs in order\<close>
  "py_dict kvs = fold (\<lambda>(k, v). AList.update k v) kvs []"


fun json_string :: "json_value \<Rightarrow> string option" where
  \<comment> \<open>\<open>isinstance(v, str)\<close>, with the string\<close>
  "json_string (JString s) = Some s"
| "json_string v = None"

definition str_dict_of :: "json_value \<Rightarrow> (string \<times> string) list option" where
  \<comment> \<open>\<open>isinstance(parsed, dict) and all(isinstance(k, str) and isinstance(v, str) ...)\<close>:
     the parsed value as a file map, if it is one\<close>
  "str_dict_of parsed =
     (case parsed of
        JObject members \<Rightarrow>
          (let d = py_dict members in
           if list_all (\<lambda>(k, v). json_string v \<noteq> None) d
           then Some (map (\<lambda>(k, v). (k, the (json_string v))) d) else None)
      | _ \<Rightarrow> None)"

definition generate_basic_app_file :: string where
  \<comment> \<open>\<open>_generate_basic_app_file\<close>: the text of the source, line by line\<close>
  \<open>generate_basic_app_file = py_join_lines
     [''const express = require('express');'',
      ''const cors = require('cors');'',
      ''const helmet = require('helmet');'',
      '''',
      ''const app = express();'',
      '''',
      ''// Security middleware'',
      ''app.use(helmet());'',
      ''app.use(cors());'',
      '''',
      ''// Body parsing middleware'',
      ''app.use(express.json({ limit: '10mb' }));'',
      ''app.use(express.urlencoded({ extended: true }));'',
      '''',
      ''// Health check endpoint'',
      ''app.get('/health', (req, res) => {'',
      ''  res.json({ status: 'healthy', timestamp: new Date().toISOString() });'',
      ''});'',
      '''',
      ''// Error handling middleware'',
      ''app.use((err, req, res, next) => {'',
      ''  console.error(err.stack);'',
      ''  res.status(500).json({ error: 'Something went wrong!' });'',
      ''});'',
      '''',
      ''module.exports = app;'']\<close>

definition generate_basic_server_file :: string where
  \<comment> \<open>\<open>_generate_basic_server_file\<close>: the text of the source, line by line\<close>
  \<open>generate_basic_server_file = py_join_lines
     [''const app = require('./app');'',
      ''const PORT = process.env.PORT || 3000;'',
      '''',
      ''const server = app.listen(PORT, () => {'',
      ''  console.log(`Server running on port ${PORT}`);'',
      ''});'',
      '''',
      ''// Graceful shutdown'',
      ''process.on('SIGTERM', () => {'',
      ''  console.log('SIGTERM received, shutting down gracefully');'',
      ''  server.close(() => {'',
      ''    console.log('Process terminated');'',
      ''  });'',
      ''});'']\<close>

definition generate_basic_package_json :: string where
  \<comment> \<open>\<open>_generate_basic_package_json\<close>: the text of the source, line by line\<close>
  \<open>generate_basic_package_json = py_join_lines
     [''{'',
      ''  "name": "generated-backend",'',
      ''  "version": "1.0.0",'',
      ''  "description": "Generated Node.js backend application",'',
      ''  "main": "src/server.js",'',
      ''  "scripts": {'',
      ''    "start": "node src/server.js",'',
      ''    "dev": "nodemon src/server.js",'',
      ''    "test": "jest"'',
      ''  },'',
      ''  "dependencies": {'',
      ''    "express": "^4.18.2",'',
      ''    "cors": "^2.8.5",'',
      ''    "helmet": "^7.0.0",'',
      ''    "joi": "^17.9.2",'',
      ''    "bcryptjs": "^2.4.3",'',
      ''    "jsonwebtoken": "^9.0.2",'',
      ''    "winston": "^3.10.0"'',
      ''  },'',
      ''  "devDependencies": {'',
      ''    "nodemon": "^3.0.1",'',
      ''    "jest": "^29.6.2"'',
      ''  }'',
      ''}'']\<close>

definition clean_match :: "string \<times> string \<Rightarrow> string \<times> string" where
  \<comment> \<open>the body of \<open>for file_path, code_content in matches\<close> up to the final test\<close>
  "clean_match m =
     (let file_path = py_strip_chars [CHR 0x22, CHR 0x27] (py_strip (fst m));
          c1 = py_strip (snd m);
          c2 = (if startswith c1 ''```'' then py_join_lines (drop 1 (split_on (CHR 0x0A) c1)) else c1);
          c3 = (if endswith c2 ''```'' then py_join_lines (butlast (split_on (CHR 0x0A) c2)) else c2)
      in (file_path, c3))"

definition extract_code_blocks_fallback ::
  "(string \<Rightarrow> (string \<times> string) list) \<Rightarrow> string \<Rightarrow> (string \<times> string) list" where
  \<comment> \<open>\<open>_extract_code_blocks_fallback\<close>; \<open>findall\<close> is
     \<open>re.findall(file_pattern, response, re.DOTALL)\<close>\<close>
  "extract_code_blocks_fallback findall response =
     (let code_files =
            fold (\<lambda>m d. let (file_path, code) = clean_match m
                         in if file_path \<noteq> [] \<and> code \<noteq> [] \<and> length code > 50
                            then AList.update file_path code d else d)
                 (findall response) []
      in if code_files = []
         then [(''src/app.js'', generate_basic_app_file),
               (''src/server.js'', generate_basic_server_file),
               (''package.json'', generate_basic_package_json)]
         else code_files)"

definition parse_node_response ::
  "(string \<Rightarrow> json_value option) \<Rightarrow> (string \<Rightarrow> (string \<times> string) list) \<Rightarrow> string
     \<Rightarrow> (string \<times> string) list" where
  \<comment> \<open>\<open>_parse_node_response\<close>; \<open>loads\<close> is \<open>json.loads\<close>, with \<open>None\<close> for a
     \<open>JSONDecodeError\<close>. \<open>rfind\<close> gives \<open>-1\<close> when there is no closing brace, so
     \<open>end_idx\<close> is then \<open>0\<close>.\<close>
  "parse_node_response loads findall response =
     (let response_clean = py_strip response in
      case index_of (CHR ''{'') response_clean of
        None \<Rightarrow> extract_code_blocks_fallback findall response
      | Some start_idx \<Rightarrow>
          (let end_idx = (case rindex_of (CHR ''}'') response_clean of None \<Rightarrow> 0 | Some i \<Rightarrow> i + 1)
           in if end_idx > start_idx
              then (case loads (take (end_idx - start_idx) (drop start_idx response_clean)) of
                      None \<Rightarrow> extract_code_blocks_fallback findall response
                    | Some parsed \<Rightarrow>
                        (case str_dict_of parsed of
                           Some files \<Rightarrow> files
                         | None \<Rightarrow> extract_code_blocks_fallback findall response))
              else extract_code_blocks_fallback findall response))"

section \<open>The Node.js handler: contracts found in the code (node\_handler.py)\<close>




record endpoint_entry =
  ep_method :: string
  ep_path :: string
  ep_file :: string
  ep_features :: "string list"
  ep_authentication_required :: bool
  ep_validation :: bool

record created_entry =
  created_name :: string
  created_file :: string
  created_features :: "string list"

record node_contracts =
  api_endpoints :: "endpoint_entry list"
  models_created :: "created_entry list"
  services_created :: "created_entry list"
  middleware_created :: "created_entry list"



section \<open>The Node.js handler: generation and refinement (base\_handler.py, node\_handler.py)\<close>

text \<open>
  The oracle is \<open>claude_client.messages.create\<close>. A call either raises (\<open>Inl\<close>, with
  \<open>str(e)\<close>) or returns a message, of which the handler reads the texts of the content blocks
  and the token usage (absent when the message has no attribute \<open>usage\<close>). The prompts are
  built from the handler's context and reach nothing but the oracle, so the oracle is given
  as the sequence of its outcomes: \<open>oracle k\<close> is the outcome of the call number \<open>k\<close>, counted
  by \<open>api_calls\<close>. The waiting between attempts (\<open>asyncio.sleep\<close>) has no effect on the state.

  The handler does not own the event bus and the registry. Its calls
  \<open>events.publish(event_type, data, handler_type, correlation_id)\<close> are recorded in order
  in \<open>published\<close>, as the event type with the data, and its calls of
  \<open>contracts.register_feature_contract\<close> in \<open>registered\<close>; what the bus and the registry
  do with them is above. In a \<open>HandlerResult\<close>, \<open>contracts\<close> is \<open>None\<close> for the empty
  dictionary of the failure result, and \<open>error_message\<close> is \<open>None\<close> for Python's \<open>None\<close>.
\<close>

record claude_response =
  response_content :: "string list"
  usage :: "(int \<times> int) option"  \<comment> \<open>\<open>input_tokens\<close>, \<open>output_tokens\<close>\<close>

record HandlerResult =
  success :: bool
  result_handler_type :: string  \<comment> \<open>the field \<open>handler_type\<close>\<close>
  features_implemented :: "string list"
  code_files :: "(string \<times> string) list"
  contracts :: "node_contracts option"
  quality_score :: real
  tokens_used :: int
  generation_time :: real
  error_message :: "string option"
  refinement_cycles :: nat

datatype event_data =
    RefinementCycle string nat real real
      \<comment> \<open>\<open>"handler"\<close>, \<open>"cycle"\<close>, \<open>"quality_score"\<close>, \<open>"target"\<close>\<close>
  | GenerationFailed string "string list" string
      \<comment> \<open>\<open>"handler"\<close>, \<open>"features"\<close>, \<open>"error"\<close>\<close>
  | GenerationCompleted string "string list" real "node_contracts option" nat
      \<comment> \<open>\<open>"handler"\<close>, \<open>"features"\<close>, \<open>"quality_score"\<close>, \<open>"contracts"\<close>, \<open>"files_generated"\<close>\<close>

record history_entry =
  history_features :: "string list"
  history_quality_score :: real
  history_patterns_used :: "string list"
  history_contracts :: "node_contracts option"

record NodeHandler =
  claude_client :: "(nat \<Rightarrow> string + claude_response) option"
  max_refinement_cycles :: nat
  generation_history :: "history_entry list"
  api_calls :: nat
  published :: "(string \<times> event_data) list"
  registered :: "FeatureContract list"



definition none_has_no_messages :: string where
  \<comment> \<open>the text of the \<open>AttributeError\<close> raised by \<open>None.messages\<close>\<close>
  "none_has_no_messages =
     [CHR 0x27] @ ''NoneType'' @ [CHR 0x27] @ '' object has no attribute '' @
     [CHR 0x27] @ ''messages'' @ [CHR 0x27]"

definition messages_create :: "NodeHandler \<Rightarrow> (string + claude_response) \<times> NodeHandler" where
  \<comment> \<open>\<open>self.claude_client.messages.create(...)\<close>\<close>
  "messages_create h =
     (case claude_client h of
        None \<Rightarrow> (Inl none_has_no_messages, h)
      | Some oracle \<Rightarrow> (oracle (api_calls h), h\<lparr>api_calls := api_calls h + 1\<rparr>))"

fun retry_attempts ::
  "nat list \<Rightarrow> nat \<Rightarrow> NodeHandler \<Rightarrow> (string + claude_response) \<times> NodeHandler" where
  \<comment> \<open>\<open>for attempt in range(max_retries)\<close> and the \<open>raise\<close> after it\<close>
  "retry_attempts [] max_retries h = (Inl ''Max retries exceeded for Claude API'', h)"
| "retry_attempts (attempt # rest) max_retries h =
     (case messages_create h of
        (Inr message, h') \<Rightarrow> (Inr message, h')
      | (Inl e, h') \<Rightarrow>
          if py_in ''overloaded'' e \<or> py_in ''rate_limit'' e
          then retry_attempts rest max_retries h'
          else if attempt = max_retries - 1 then (Inl e, h')
          else retry_attempts rest max_retries h')"

definition claude_request_with_retry ::
  "NodeHandler \<Rightarrow> (string + claude_response) \<times> NodeHandler" where
  \<comment> \<open>\<open>_claude_request_with_retry\<close>, \<open>max_retries\<close> at its default 3\<close>
  "claude_request_with_retry h = retry_attempts [0 ..< 3] 3 h"





















chapter \<open>Properties\<close>

section \<open>Token budget: a critical chunk after a truncated one is lost\<close>

lemma sort_key_priority_same:
  "\<forall>c \<in> set cs. priority c = p \<Longrightarrow> sort_key priority cs = cs"
  by (induction cs) (auto simp: insort_is_Cons)

text \<open>
  C4. The source comments the priority-1 branch with "Always include critical chunks,
  truncate if needed", but the branch ends the loop: of three priority-1 chunks where the
  first fits the budget and the second does not, the second is truncated and the third is
  not in the result.
\<close>

theorem optimize_chunks_drops_critical_chunk:
  assumes "priority a = 1" and "priority b = 1" and "priority c = 1"
    and "tokens_estimate a \<le> max_tokens"
    and "max_tokens < tokens_estimate a + tokens_estimate b"
    and "0 \<le> tokens_estimate c"
  shows "optimize_chunks_for_tokens max_tokens [a, b, c] =
           [a, truncate_chunk max_tokens (tokens_estimate a) b]"
proof -
  have sorted: "sort_key priority [a, b, c] = [a, b, c]"
    using assms(1-3) by (intro sort_key_priority_same) simp
  have over: "\<not> tokens_estimate a + tokens_estimate b + tokens_estimate c \<le> max_tokens"
    using assms(5,6) by linarith
  have "optimize_chunks_for_tokens max_tokens [a, b, c] = optimize_loop max_tokens [a, b, c] [] 0"
    unfolding optimize_chunks_for_tokens_def sorted using over by (simp add: Let_def add.assoc)
  also have "\<dots> = [a, truncate_chunk max_tokens (tokens_estimate a) b]"
    using assms(2,4,5) by simp
  finally show ?thesis .
qed

theorem optimize_chunks_drops_critical_chunk_witness:
  "map chunk_id (optimize_chunks_for_tokens 10
      [mk_chunk ''architecture'' ''architecture'' ''=== ARCHITECTURE CONTEXT ===....'' 1,
       mk_chunk ''contracts'' ''contracts'' ''=== EXISTING CONTRACTS ===......'' 1,
       mk_chunk ''features'' ''feature_spec'' ''feat'' 1])
   = [''architecture'', ''contracts'']"
  using optimize_chunks_drops_critical_chunk
    [of "mk_chunk ''architecture'' ''architecture'' ''=== ARCHITECTURE CONTEXT ===....'' 1"
        "mk_chunk ''contracts'' ''contracts'' ''=== EXISTING CONTRACTS ===......'' 1"
        "mk_chunk ''features'' ''feature_spec'' ''feat'' 1" 10]
  by (simp add: mk_chunk_def truncate_chunk_def Let_def)

section \<open>Registry: the endpoint index keeps one endpoint per key\<close>

lemma index_endpoints_distinct:
  "distinct (map fst reg) \<Longrightarrow> distinct (map fst (index_endpoints eps reg))"
  unfolding index_endpoints_def
  by (induction eps arbitrary: reg) (simp_all add: AList.distinct_update)

lemma index_endpoints_keys:
  "fst ` set (index_endpoints eps reg) = fst ` set reg \<union> endpoint_key ` set eps"
  unfolding index_endpoints_def
  by (induction eps arbitrary: reg) (auto simp: AList.dom_update)

lemma index_endpoints_map_of:
  "map_of (index_endpoints eps reg) =
     map_of reg ++ map_of (rev (map (\<lambda>e. (endpoint_key e, e)) eps))"
  unfolding index_endpoints_def
proof (induction eps arbitrary: reg)
  case Nil
  show ?case by simp
next
  case (Cons e eps)
  show ?case
    by (simp add: Cons.IH AList.update_conv' map_add_upd_left fun_eq_iff map_add_def split: option.splits)
qed

lemma update_fresh:
  "k \<notin> fst ` set al \<Longrightarrow> AList.update k v al = al @ [(k, v)]"
  by (induction al) auto

lemma index_endpoints_fresh:
  "distinct (map endpoint_key eps) \<Longrightarrow> endpoint_key ` set eps \<inter> fst ` set reg = {} \<Longrightarrow>
   index_endpoints eps reg = reg @ map (\<lambda>e. (endpoint_key e, e)) eps"
  unfolding index_endpoints_def
proof (induction eps arbitrary: reg)
  case Nil
  show ?case by simp
next
  case (Cons e eps)
  have fresh: "endpoint_key e \<notin> fst ` set reg" using Cons.prems(2) by auto
  have "endpoint_key ` set eps \<inter> fst ` set (reg @ [(endpoint_key e, e)]) = {}"
    using Cons.prems by auto
  with Cons.IH[of "reg @ [(endpoint_key e, e)]"] Cons.prems(1) fresh
  show ?case by (simp add: update_fresh)
qed

lemma endpoint_registry_register:
  "endpoint_registry (register_feature_contract now c r) =
     index_endpoints (endpoints c) (endpoint_registry r)"
  by (simp add: register_feature_contract_def Let_def)

lemma index_endpoints_append:
  "index_endpoints (xs @ ys) reg = index_endpoints ys (index_endpoints xs reg)"
  by (simp add: index_endpoints_def)

lemma endpoint_registry_register_all:
  "endpoint_registry (register_all calls r) =
     index_endpoints (concat (map (endpoints \<circ> snd) calls)) (endpoint_registry r)"
  unfolding register_all_def
proof (induction calls arbitrary: r)
  case Nil
  show ?case by (simp add: index_endpoints_def)
next
  case (Cons c calls)
  show ?case
    by (cases c) (simp add: Cons.IH endpoint_registry_register index_endpoints_append)
qed


lemma feature_contracts_register_all:
  "distinct (map (feature_name \<circ> snd) calls) \<Longrightarrow>
   (feature_name \<circ> snd) ` set calls \<inter> fst ` set (feature_contracts r) = {} \<Longrightarrow>
   feature_contracts (register_all calls r) =
     feature_contracts r @
     map (\<lambda>(now, c). (feature_name c, c\<lparr>created_at_c := Some now\<rparr>)) calls"
  unfolding register_all_def
proof (induction calls arbitrary: r)
  case Nil
  show ?case by simp
next
  case (Cons call calls)
  obtain now c where call: "call = (now, c)" by (cases call)
  let ?r = "register_feature_contract now c r"
  have fresh: "feature_name c \<notin> fst ` set (feature_contracts r)"
    using Cons.prems(2) by (auto simp add: call)
  have fc: "feature_contracts ?r =
              feature_contracts r @ [(feature_name c, c\<lparr>created_at_c := Some now\<rparr>)]"
    using fresh by (simp add: register_feature_contract_def Let_def update_fresh)
  have d: "distinct (map (feature_name \<circ> snd) calls)"
    using Cons.prems(1) by (simp add: comp_def)
  have "(feature_name \<circ> snd) ` set calls \<inter> fst ` set (feature_contracts ?r) = {}"
    using Cons.prems by (auto simp add: fc call)
  from Cons.IH [OF d this] show ?case by (simp add: call fc)
qed

lemma held_endpoints:
  assumes "distinct (map (feature_name \<circ> snd) calls)"
  shows "concat (map (endpoints \<circ> snd) (feature_contracts (register_all calls new_registry)))
         = concat (map (endpoints \<circ> snd) calls)"
proof -
  have fc: "feature_contracts (register_all calls new_registry) =
          map (\<lambda>(now, c). (feature_name c, c\<lparr>created_at_c := Some now\<rparr>)) calls"
    using feature_contracts_register_all [OF assms, of new_registry]
    by (simp add: new_registry_def)
  have eq: "map (endpoints \<circ> snd)
              (map (\<lambda>(now, c). (feature_name c, c\<lparr>created_at_c := Some now\<rparr>)) calls)
            = map (endpoints \<circ> snd) calls"
    by (induction calls) auto
  show ?thesis by (simp only: fc eq)
qed

text \<open>
  C2 (as amended). After any sequence of \<open>register_feature_contract\<close> calls on a fresh
  registry, \<open>get_all_endpoints\<close> returns one endpoint for each distinct "METHOD path" key
  among the endpoints of all the contracts passed to the calls, those that a later
  registration of the same feature has replaced included (the endpoint index is never
  pruned), namely the last one passed under that key. Its length is the number of distinct
  keys, which is at most the sum of the passed contracts' endpoint-list lengths; when the
  keys are pairwise distinct it is exactly the list of all endpoints passed. When every
  feature is registered once, the contracts passed are the contracts the registry holds,
  so all this is then said of the endpoints of the held contracts.
\<close>

theorem get_all_endpoints_one_per_key:
  "let all_eps = concat (map (endpoints \<circ> snd) calls);
       result = get_all_endpoints (register_all calls new_registry)
   in length result = card (endpoint_key ` set all_eps)
    \<and> distinct (map endpoint_key result)
    \<and> set result = ran (map_of (rev (map (\<lambda>e. (endpoint_key e, e)) all_eps)))
    \<and> length result \<le> sum_list (map (length \<circ> endpoints \<circ> snd) calls)
    \<and> (distinct (map endpoint_key all_eps) \<longrightarrow> result = all_eps)
    \<and> (distinct (map (feature_name \<circ> snd) calls) \<longrightarrow>
         concat (map (endpoints \<circ> snd) (feature_contracts (register_all calls new_registry)))
         = all_eps)"
proof -
  define all_eps where "all_eps = concat (map (endpoints \<circ> snd) calls)"
  define reg where "reg = endpoint_registry (register_all calls new_registry)"
  have reg: "reg = index_endpoints all_eps []"
    by (simp add: reg_def all_eps_def endpoint_registry_register_all new_registry_def)
  have dist: "distinct (map fst reg)"
    unfolding reg by (rule index_endpoints_distinct) simp
  have keys: "fst ` set reg = endpoint_key ` set all_eps"
    unfolding reg by (simp add: index_endpoints_keys)
  have mo: "map_of reg = map_of (rev (map (\<lambda>e. (endpoint_key e, e)) all_eps))"
    unfolding reg by (simp add: index_endpoints_map_of)
  have snd_key: "endpoint_key (snd p) = fst p" if "p \<in> set reg" for p
  proof -
    from that dist have "map_of reg (fst p) = Some (snd p)" by simp
    then have "map_of (rev (map (\<lambda>e. (endpoint_key e, e)) all_eps)) (fst p) = Some (snd p)"
      by (simp add: mo)
    then have "(fst p, snd p) \<in> set (rev (map (\<lambda>e. (endpoint_key e, e)) all_eps))"
      by (rule map_of_SomeD)
    then show ?thesis by auto
  qed
  have key_map: "map endpoint_key (map snd reg) = map fst reg"
    using snd_key by (simp add: list_eq_iff_nth_eq)
  have len: "length (map snd reg) = card (endpoint_key ` set all_eps)"
    using distinct_card[OF dist] keys by (simp add: image_set[symmetric] del: image_set)
  have c2: "distinct (map endpoint_key (map snd reg))"
    using dist by (simp only: key_map)
  have c3: "set (map snd reg) = ran (map_of (rev (map (\<lambda>e. (endpoint_key e, e)) all_eps)))"
    using ran_distinct[OF dist] mo by simp
  have "card (endpoint_key ` set all_eps) \<le> length all_eps"
    by (metis card_image_le card_length le_trans List.finite_set)
  moreover have "length all_eps = sum_list (map (length \<circ> endpoints \<circ> snd) calls)"
    by (simp add: all_eps_def length_concat comp_def)
  ultimately have c4: "length (map snd reg) \<le> sum_list (map (length \<circ> endpoints \<circ> snd) calls)"
    using len by simp
  have c5: "map snd reg = all_eps" if "distinct (map endpoint_key all_eps)"
    unfolding reg using index_endpoints_fresh[OF that, of "[]"] by (simp add: comp_def)
  have c6: "concat (map (endpoints \<circ> snd) (feature_contracts (register_all calls new_registry)))
            = all_eps" if "distinct (map (feature_name \<circ> snd) calls)"
    unfolding all_eps_def using that by (rule held_endpoints)
  show ?thesis
    unfolding Let_def get_all_endpoints_def
    using len c2 c3 c4 c5 c6 by (simp only: all_eps_def[symmetric] reg_def[symmetric]) simp
qed

theorem get_all_endpoints_one_per_key_witness:
  "get_all_endpoints (register_all
      [(''t1'', mk_contract ''users'' [mk_endpoint ''GET'' ''/api/users'' ''list'',
                                      mk_endpoint ''POST'' ''/api/users'' ''create''] None),
       (''t2'', mk_contract ''chat'' [mk_endpoint ''GET'' ''/api/chat/rooms'' ''rooms''] None)]
      new_registry)
   = [mk_endpoint ''GET'' ''/api/users'' ''list'', mk_endpoint ''POST'' ''/api/users'' ''create'',
      mk_endpoint ''GET'' ''/api/chat/rooms'' ''rooms'']"
  using get_all_endpoints_one_per_key
    [of "[(''t1'', mk_contract ''users'' [mk_endpoint ''GET'' ''/api/users'' ''list'',
                                      mk_endpoint ''POST'' ''/api/users'' ''create''] None),
          (''t2'', mk_contract ''chat'' [mk_endpoint ''GET'' ''/api/chat/rooms'' ''rooms''] None)]"]
  by (simp add: Let_def mk_contract_def mk_endpoint_def endpoint_key_def)

text \<open>
  The claim as stated fails: two features that both declare \<open>GET /api/users\<close> leave one
  endpoint in the registry, not two.
\<close>

theorem get_all_endpoints_sum_counterexample:
  "length (get_all_endpoints (register_all
      [(''t1'', mk_contract ''users'' [mk_endpoint ''GET'' ''/api/users'' ''users endpoint''] None),
       (''t2'', mk_contract ''admin'' [mk_endpoint ''GET'' ''/api/users'' ''admin endpoint''] None)]
      new_registry)) = 1
   \<and> length (endpoints (mk_contract ''users'' [mk_endpoint ''GET'' ''/api/users'' ''users endpoint''] None))
     + length (endpoints (mk_contract ''admin'' [mk_endpoint ''GET'' ''/api/users'' ''admin endpoint''] None)) = 2"
  by (simp add: get_all_endpoints_def register_all_def register_feature_contract_def
      new_registry_def mk_contract_def mk_endpoint_def index_endpoints_def index_models_def
      endpoint_key_def)

section \<open>Registry: circular dependencies\<close>

lemma circular_restore:
  shows "has_circular_dependency n g f deps vis = Some (False, v) \<Longrightarrow> v = vis"
    and "circular_loop n g ds vis = Some (False, v) \<Longrightarrow> v = vis"
proof (induction n g f deps vis and n g ds vis arbitrary: v and v
       rule: has_circular_dependency_circular_loop.induct)
  case (1 g feature deps visited)
  then show ?case by simp
next
  case (2 n g feature deps visited)
  from "2.prems" have nv: "feature \<notin> visited" by (simp split: if_splits)
  from "2.prems" nv obtain b v' where
    l: "circular_loop n g deps (insert feature visited) = Some (b, v')"
    by (cases "circular_loop n g deps (insert feature visited)") auto
  with "2.prems" nv have "b = False" and v: "v = v' - {feature}"
    by (cases b; simp)+
  with l "2.IH"[OF nv] have "v' = insert feature visited" by simp
  with v nv show ?case by auto
next
  case (3 n g visited)
  then show ?case by simp
next
  case (4 n g dep deps visited)
  show ?case
  proof (cases "map_of g dep")
    case None
    with 4 show ?thesis by simp
  next
    case (Some dd)
    from "4.prems" Some obtain b v' where
      h: "has_circular_dependency n g dep dd visited = Some (b, v')"
      by (cases "has_circular_dependency n g dep dd visited") auto
    with "4.prems" Some have bf: "b = False" and l: "circular_loop n g deps v' = Some (False, v)"
      by (cases b; simp)+
    from "4.IH"(2)[OF Some] h bf have "v' = visited" by simp
    with "4.IH"(3)[OF Some h[unfolded bf] refl refl l] bf show ?thesis
      by simp
  qed
qed

lemma circular_total:
  shows "card (insert f (fst ` set g) - vis) < n \<Longrightarrow>
           has_circular_dependency n g f deps vis \<noteq> None"
    and "card (fst ` set g - vis) < n \<Longrightarrow> circular_loop n g ds vis \<noteq> None"
proof (induction n g f deps vis and n g ds vis
       rule: has_circular_dependency_circular_loop.induct)
  case (1 g feature deps visited)
  then show ?case by simp
next
  case (2 n g feature deps visited)
  show ?case
  proof (cases "feature \<in> visited")
    case True
    then show ?thesis by simp
  next
    case False
    have "insert feature (fst ` set g) - visited =
            insert feature (fst ` set g - insert feature visited)"
      using False by auto
    then have "card (insert feature (fst ` set g) - visited) =
                 Suc (card (fst ` set g - insert feature visited))"
      by simp
    with "2.prems" have "card (fst ` set g - insert feature visited) < n" by simp
    from "2.IH"[OF False this] obtain b v' where
      "circular_loop n g deps (insert feature visited) = Some (b, v')" by auto
    with False show ?thesis by (cases b) simp_all
  qed
next
  case (3 n g visited)
  then show ?case by simp
next
  case (4 n g dep deps visited)
  show ?case
  proof (cases "map_of g dep")
    case None
    with 4 show ?thesis by simp
  next
    case (Some dd)
    then have "dep \<in> fst ` set g" by (metis map_of_SomeD fst_conv imageI)
    then have "insert dep (fst ` set g) = fst ` set g" by auto
    with "4.prems" have "card (insert dep (fst ` set g) - visited) < n" by simp
    from "4.IH"(2)[OF Some this] obtain b v' where
      h: "has_circular_dependency n g dep dd visited = Some (b, v')" by auto
    show ?thesis
    proof (cases b)
      case True
      with h Some show ?thesis by simp
    next
      case False
      then have bf: "b = False" by simp
      with h have v': "v' = visited" by (simp add: circular_restore(1))
      from "4.IH"(3)[OF Some h[unfolded bf] refl refl] "4.prems" v'
      have "circular_loop n g deps v' \<noteq> None" by simp
      with bf h Some show ?thesis by simp
    qed
  qed
qed

lemma dep_edge_iff: "dep_edge g a b \<longleftrightarrow> (\<exists>ds. map_of g a = Some ds \<and> b \<in> set ds)"
  by (simp add: dep_edge_def split: option.splits)

lemma circular_sound:
  shows "\<lbrakk>acyclic_deps g; \<forall>x\<in>vis. \<not> (dep_edge g)\<^sup>*\<^sup>* f x; \<forall>d\<in>set deps. dep_edge g f d;
           has_circular_dependency n g f deps vis = Some (b, v)\<rbrakk> \<Longrightarrow> \<not> b"
    and "\<lbrakk>acyclic_deps g; \<forall>d\<in>set ds. \<forall>x\<in>vis. \<not> (dep_edge g)\<^sup>*\<^sup>* d x;
           circular_loop n g ds vis = Some (b, v)\<rbrakk> \<Longrightarrow> \<not> b"
proof (induction n g f deps vis and n g ds vis arbitrary: b v and b v
       rule: has_circular_dependency_circular_loop.induct)
  case (1 g feature deps visited)
  then show ?case by simp
next
  case (2 n g feature deps visited)
  note acyc = "2.prems"(1)
  have nv: "feature \<notin> visited" using "2.prems"(2) by auto
  from "2.prems"(4) nv obtain b' v' where
    l: "circular_loop n g deps (insert feature visited) = Some (b', v')"
    by (cases "circular_loop n g deps (insert feature visited)") auto
  have "\<forall>d\<in>set deps. \<forall>x\<in>insert feature visited. \<not> (dep_edge g)\<^sup>*\<^sup>* d x"
  proof (intro ballI notI)
    fix d x assume d: "d \<in> set deps" and x: "x \<in> insert feature visited"
      and r: "(dep_edge g)\<^sup>*\<^sup>* d x"
    from d "2.prems"(3) have e: "dep_edge g feature d" by simp
    show False
    proof (cases "x = feature")
      case True
      with e r have "(dep_edge g)\<^sup>+\<^sup>+ feature feature" by (simp add: rtranclp_into_tranclp2)
      with acyc show False unfolding acyclic_deps_def by blast
    next
      case False
      with x have "x \<in> visited" by simp
      moreover from e r have "(dep_edge g)\<^sup>*\<^sup>* feature x"
        by (simp add: converse_rtranclp_into_rtranclp)
      ultimately show False using "2.prems"(2) by simp
    qed
  qed
  from "2.IH"[OF nv acyc this l] have "\<not> b'" .
  with l "2.prems"(4) nv show ?case by simp
next
  case (3 n g visited)
  then show ?case by simp
next
  case (4 n g dep deps visited)
  note acyc = "4.prems"(1)
  show ?case
  proof (cases "map_of g dep")
    case None
    with 4 show ?thesis by simp
  next
    case (Some dd)
    from "4.prems"(3) Some obtain b1 v1 where
      h: "has_circular_dependency n g dep dd visited = Some (b1, v1)"
      by (cases "has_circular_dependency n g dep dd visited") auto
    have e: "\<forall>d\<in>set dd. dep_edge g dep d" using Some by (simp add: dep_edge_iff)
    have r1: "\<forall>x\<in>visited. \<not> (dep_edge g)\<^sup>*\<^sup>* dep x" using "4.prems"(2) by simp
    from "4.IH"(2)[OF Some acyc r1 e h] have nb1: "b1 = False" by simp
    with h have v1: "v1 = visited" by (simp add: circular_restore(1))
    from nb1 h "4.prems"(3) Some have l: "circular_loop n g deps v1 = Some (b, v)" by simp
    have r2: "\<forall>d\<in>set deps. \<forall>x\<in>v1. \<not> (dep_edge g)\<^sup>*\<^sup>* d x"
      using "4.prems"(2) v1 by simp
    from "4.IH"(3)[OF Some h[unfolded nb1] refl refl acyc r2 l] show ?thesis .
  qed
qed

lemma circular_complete:
  shows "\<lbrakk>vis \<subseteq> fst ` set g; f \<in> fst ` set g;
           f \<in> vis \<or> (\<exists>d\<in>set deps. \<exists>x\<in>insert f vis. (dep_edge g)\<^sup>*\<^sup>* d x);
           has_circular_dependency n g f deps vis = Some (b, v)\<rbrakk> \<Longrightarrow> b"
    and "\<lbrakk>vis \<subseteq> fst ` set g; \<exists>d\<in>set ds. \<exists>x\<in>vis. (dep_edge g)\<^sup>*\<^sup>* d x;
           circular_loop n g ds vis = Some (b, v)\<rbrakk> \<Longrightarrow> b"
proof (induction n g f deps vis and n g ds vis arbitrary: b v and b v
       rule: has_circular_dependency_circular_loop.induct)
  case (1 g feature deps visited)
  then show ?case by simp
next
  case (2 n g feature deps visited)
  show ?case
  proof (cases "feature \<in> visited")
    case True
    with "2.prems"(4) show ?thesis by simp
  next
    case False
    from "2.prems"(4) False obtain b' v' where
      l: "circular_loop n g deps (insert feature visited) = Some (b', v')"
      by (cases "circular_loop n g deps (insert feature visited)") auto
    have sub: "insert feature visited \<subseteq> fst ` set g" using "2.prems"(1,2) by simp
    have ex: "\<exists>d\<in>set deps. \<exists>x\<in>insert feature visited. (dep_edge g)\<^sup>*\<^sup>* d x"
      using "2.prems"(3) False by simp
    from "2.IH"[OF False sub ex l] have b' .
    with l "2.prems"(4) False show ?thesis by simp
  qed
next
  case (3 n g visited)
  then show ?case by simp
next
  case (4 n g dep deps visited)
  from "4.prems"(2) obtain d0 x where d0: "d0 \<in> set (dep # deps)" and x: "x \<in> visited"
    and r: "(dep_edge g)\<^sup>*\<^sup>* d0 x" by blast
  from x "4.prems"(1) have xk: "x \<in> fst ` set g" by auto
  show ?case
  proof (cases "map_of g dep")
    case None
    have "d0 \<noteq> dep"
    proof
      assume eq: "d0 = dep"
      from r[unfolded eq] show False
      proof (cases rule: converse_rtranclpE)
        case base
        with xk None show False by (simp add: map_of_eq_None_iff)
      next
        case (step y)
        with None show False by (simp add: dep_edge_def)
      qed
    qed
    with d0 x r have ex: "\<exists>d\<in>set deps. \<exists>x\<in>visited. (dep_edge g)\<^sup>*\<^sup>* d x" by auto
    from "4.prems"(3) None have l: "circular_loop n g deps visited = Some (b, v)" by simp
    from "4.IH"(1)[OF None "4.prems"(1) ex l] show ?thesis .
  next
    case (Some dd)
    from "4.prems"(3) Some obtain b1 v1 where
      h: "has_circular_dependency n g dep dd visited = Some (b1, v1)"
      by (cases "has_circular_dependency n g dep dd visited") auto
    have depk: "dep \<in> fst ` set g" using Some by (metis map_of_SomeD fst_conv imageI)
    show ?thesis
    proof (cases b1)
      case True
      with h "4.prems"(3) Some show ?thesis by simp
    next
      case False
      then have nb1: "b1 = False" by simp
      with h have v1: "v1 = visited" by (simp add: circular_restore(1))
      from nb1 h "4.prems"(3) Some have l: "circular_loop n g deps v1 = Some (b, v)" by simp
      have "d0 \<noteq> dep"
      proof
        assume eq: "d0 = dep"
        have "dep \<in> visited \<or> (\<exists>d\<in>set dd. \<exists>x\<in>insert dep visited. (dep_edge g)\<^sup>*\<^sup>* d x)"
          using r[unfolded eq]
        proof (cases rule: converse_rtranclpE)
          case base
          with x show ?thesis by simp
        next
          case (step y)
          from step(1) Some have "y \<in> set dd" by (simp add: dep_edge_def)
          with step(2) x show ?thesis by blast
        qed
        from "4.IH"(2)[OF Some "4.prems"(1) depk this h] False show False by simp
      qed
      with d0 x r v1 have ex: "\<exists>d\<in>set deps. \<exists>x\<in>v1. (dep_edge g)\<^sup>*\<^sup>* d x" by auto
      have sub: "v1 \<subseteq> fst ` set g" using v1 "4.prems"(1) by simp
      from "4.IH"(3)[OF Some h[unfolded nb1] refl refl sub ex l] show ?thesis .
    qed
  qed
qed

lemma top_level_call:
  assumes dist: "distinct (map fst g)" and mem: "(f, deps) \<in> set g"
  shows "\<exists>b v. has_circular_dependency (Suc (length g)) g f deps {} = Some (b, v)
           \<and> (acyclic_deps g \<longrightarrow> \<not> b) \<and> ((dep_edge g)\<^sup>+\<^sup>+ f f \<longrightarrow> b)"
proof -
  from dist mem have mo: "map_of g f = Some deps" by simp
  from mem have fk: "f \<in> fst ` set g" by force
  have "card (insert f (fst ` set g) - {}) \<le> length g"
    using fk by (simp add: insert_absorb card_image_le[THEN le_trans] card_length)
  then have "has_circular_dependency (Suc (length g)) g f deps {} \<noteq> None"
    by (intro circular_total(1)) simp
  then obtain b v where h: "has_circular_dependency (Suc (length g)) g f deps {} = Some (b, v)"
    by auto
  have edges: "\<forall>d\<in>set deps. dep_edge g f d" using mo by (simp add: dep_edge_iff)
  have s: "\<not> b" if "acyclic_deps g"
    using circular_sound(1)[OF that _ edges h] by simp
  have c: b if cyc: "(dep_edge g)\<^sup>+\<^sup>+ f f"
  proof -
    from cyc obtain d where e: "dep_edge g f d" and r: "(dep_edge g)\<^sup>*\<^sup>* d f"
      by (auto dest: tranclpD)
    from e mo have "d \<in> set deps" by (simp add: dep_edge_iff)
    with r have "f \<in> {} \<or> (\<exists>d\<in>set deps. \<exists>x\<in>insert f {}. (dep_edge g)\<^sup>*\<^sup>* d x)" by auto
    from circular_complete(1)[OF _ fk this h] show b by simp
  qed
  from h s c show ?thesis by blast
qed

lemma check_dependency_cycles_spec:
  assumes dist: "distinct (map fst g)"
  shows "set items \<subseteq> set g \<Longrightarrow>
         \<exists>cs. check_dependency_cycles g items = Some cs
           \<and> (acyclic_deps g \<longrightarrow> cs = [])
           \<and> (\<forall>f. f \<in> fst ` set items \<and> (dep_edge g)\<^sup>+\<^sup>+ f f
                  \<longrightarrow> ''Circular dependency in '' @ f \<in> set cs)"
proof (induction items)
  case Nil
  then show ?case by simp
next
  case (Cons item items)
  obtain f deps where item: "item = (f, deps)" by (cases item)
  with Cons.prems have mem: "(f, deps) \<in> set g" and sub: "set items \<subseteq> set g" by auto
  from top_level_call[OF dist mem] obtain b v where
    h: "has_circular_dependency (Suc (length g)) g f deps {} = Some (b, v)"
    and s: "acyclic_deps g \<longrightarrow> \<not> b" and c: "(dep_edge g)\<^sup>+\<^sup>+ f f \<longrightarrow> b" by blast
  from Cons.IH[OF sub] obtain cs where
    r: "check_dependency_cycles g items = Some cs"
    and rs: "acyclic_deps g \<longrightarrow> cs = []"
    and rc: "\<forall>f. f \<in> fst ` set items \<and> (dep_edge g)\<^sup>+\<^sup>+ f f
                  \<longrightarrow> ''Circular dependency in '' @ f \<in> set cs" by blast
  have eq: "check_dependency_cycles g (item # items) =
              Some ((if b then [''Circular dependency in '' @ f] else []) @ cs)"
    using h r item by simp
  show ?case
    unfolding eq using s c rs rc item by auto
qed

lemma validate_spec:
  assumes dist: "distinct (map fst (dependency_graph r))"
  shows "\<exists>issues. validate_cross_stack_consistency r = Some issues
           \<and> (acyclic_deps (dependency_graph r) \<longrightarrow> dependency_conflicts issues = [])
           \<and> (\<forall>f. (dep_edge (dependency_graph r))\<^sup>+\<^sup>+ f f
                  \<longrightarrow> ''Circular dependency in '' @ f \<in> set (dependency_conflicts issues))"
proof -
  let ?g = "dependency_graph r"
  from check_dependency_cycles_spec[OF dist, of ?g] obtain cs where
    r: "check_dependency_cycles ?g ?g = Some cs"
    and rs: "acyclic_deps ?g \<longrightarrow> cs = []"
    and rc: "\<forall>f. f \<in> fst ` set ?g \<and> (dep_edge ?g)\<^sup>+\<^sup>+ f f
                  \<longrightarrow> ''Circular dependency in '' @ f \<in> set cs" by blast
  have key: "f \<in> fst ` set ?g" if "(dep_edge ?g)\<^sup>+\<^sup>+ f f" for f
  proof -
    from that obtain d where "dep_edge ?g f d" by (auto dest: tranclpD)
    then obtain ds where "map_of ?g f = Some ds" by (auto simp: dep_edge_iff)
    then show ?thesis by (metis map_of_SomeD fst_conv imageI)
  qed
  show ?thesis
    using r rs rc key by (simp add: validate_cross_stack_consistency_def Let_def)
qed

lemma dependency_graph_register:
  "dependency_graph (register_feature_contract now c r) =
     (case dependencies c of
        None \<Rightarrow> dependency_graph r
      | Some deps \<Rightarrow> if deps = [] then dependency_graph r
                     else AList.update (feature_name c) (remdups deps) (dependency_graph r))"
  by (simp add: register_feature_contract_def Let_def split: option.splits)

lemma dependency_graph_register_distinct:
  "distinct (map fst (dependency_graph r)) \<Longrightarrow>
   distinct (map fst (dependency_graph (register_feature_contract now c r)))"
  by (simp add: dependency_graph_register AList.distinct_update split: option.splits)

lemma dependency_graph_distinct:
  "distinct (map fst (dependency_graph r)) \<Longrightarrow>
   distinct (map fst (dependency_graph (register_all calls r)))"
  unfolding register_all_def
  by (induction calls arbitrary: r) (auto simp: dependency_graph_register_distinct)

lemma mutual_dependency_is_cycle:
  assumes ne: "a \<noteq> b"
    and ca: "feature_name ca = a" "dependencies ca = Some da" "b \<in> set da"
    and cb: "feature_name cb = b" "dependencies cb = Some db" "a \<in> set db"
  shows "(dep_edge (dependency_graph
            (register_feature_contract t2 cb (register_feature_contract t1 ca r))))\<^sup>+\<^sup>+ a a"
proof -
  let ?g = "dependency_graph (register_feature_contract t2 cb (register_feature_contract t1 ca r))"
  from ca cb have da: "da \<noteq> []" and db: "db \<noteq> []" by auto
  have g: "?g = AList.update b (remdups db) (AList.update a (remdups da) (dependency_graph r))"
    using ca cb da db by (simp add: dependency_graph_register)
  have "map_of ?g a = Some (remdups da)" and "map_of ?g b = Some (remdups db)"
    using ne by (simp_all add: g AList.update_conv')
  then have "dep_edge ?g a b" and "dep_edge ?g b a"
    using ca(3) cb(3) by (simp_all add: dep_edge_iff)
  then show ?thesis by (rule tranclp.intros(2)[OF tranclp.intros(1)])
qed


lemma tranclp_rank:
  fixes rank :: "string \<Rightarrow> nat"
  assumes "\<And>a b. R a b \<Longrightarrow> rank b < rank a"
  shows "\<not> R\<^sup>+\<^sup>+ a a"
proof -
  have "rank y < rank x" if "R\<^sup>+\<^sup>+ x y" for x y
    using that by (induction rule: tranclp_induct) (auto dest: assms)
  then show ?thesis by (meson less_irrefl)
qed

lemma tranclp_sub:
  assumes "\<And>a b. R a b \<Longrightarrow> S a b" and "R\<^sup>+\<^sup>+ x y"
  shows "S\<^sup>+\<^sup>+ x y"
  using assms(2) by (induction rule: tranclp_induct) (auto intro: tranclp.intros assms(1))

lemma feature_contracts_register:
  "map_of (feature_contracts (register_feature_contract now c r)) =
     (map_of (feature_contracts r))(feature_name c \<mapsto> c\<lparr>created_at_c := Some now\<rparr>)"
  by (simp add: register_feature_contract_def Let_def update_conv')

lemma graph_register:
  "map_of (dependency_graph (register_feature_contract now c r)) =
     (if declares c
      then (map_of (dependency_graph r))(feature_name c \<mapsto> remdups (the (dependencies c)))
      else map_of (dependency_graph r))"
  by (auto simp add: dependency_graph_register declares_def update_conv' split: option.splits)

lemma declares_stamp: "declares (c\<lparr>created_at_c := t\<rparr>) = declares c"
  by (simp add: declares_def)

text \<open>
  Whatever is registered, the graph has the dependencies of every held contract that
  declares some.
\<close>

lemma held_in_graph_register:
  assumes "\<forall>a c. map_of (feature_contracts r) a = Some c \<and> declares c
             \<longrightarrow> map_of (dependency_graph r) a = Some (remdups (the (dependencies c)))"
  shows "\<forall>a c. map_of (feature_contracts (register_feature_contract now c0 r)) a = Some c
             \<and> declares c
             \<longrightarrow> map_of (dependency_graph (register_feature_contract now c0 r)) a
                   = Some (remdups (the (dependencies c)))"
  using assms
  by (auto simp add: feature_contracts_register graph_register declares_stamp
      split: if_splits)

lemma held_in_graph:
  "\<forall>a c. map_of (feature_contracts r) a = Some c \<and> declares c
       \<longrightarrow> map_of (dependency_graph r) a = Some (remdups (the (dependencies c))) \<Longrightarrow>
   \<forall>a c. map_of (feature_contracts (register_all calls r)) a = Some c \<and> declares c
       \<longrightarrow> map_of (dependency_graph (register_all calls r)) a
             = Some (remdups (the (dependencies c)))"
  unfolding register_all_def
proof (induction calls arbitrary: r)
  case Nil
  then show ?case by simp
next
  case (Cons call calls)
  obtain now c0 where call: "call = (now, c0)" by (cases call)
  show ?case
    using Cons.IH [OF held_in_graph_register [OF Cons.prems, of now c0]]
    by (simp add: call)
qed

lemma declared_dependency_in_graph:
  assumes "\<forall>a c. map_of (feature_contracts r) a = Some c \<and> declares c
             \<longrightarrow> map_of (dependency_graph r) a = Some (remdups (the (dependencies c)))"
    and "declared_dependency r a b"
  shows "dep_edge (dependency_graph r) a b"
proof -
  from assms(2) obtain c deps where
    c: "map_of (feature_contracts r) a = Some c" and d: "dependencies c = Some deps"
    and b: "b \<in> set deps"
    by (auto simp add: declared_dependency_def split: option.splits)
  from d b have "declares c" by (auto simp add: declares_def)
  with assms(1) c d have "map_of (dependency_graph r) a = Some (remdups deps)" by auto
  with b show ?thesis by (simp add: dep_edge_iff)
qed

text \<open>
  The converse needs the registrations to keep their dependencies: a feature registered
  again without dependencies keeps its old entry in the graph.
\<close>

lemma graph_is_held_register:
  assumes "\<forall>a ds. map_of (dependency_graph r) a = Some ds
             \<longrightarrow> (\<exists>c. map_of (feature_contracts r) a = Some c \<and> declares c
                       \<and> ds = remdups (the (dependencies c)))"
    and "declares c0 \<or> map_of (dependency_graph r) (feature_name c0) = None"
  shows "\<forall>a ds. map_of (dependency_graph (register_feature_contract now c0 r)) a = Some ds
             \<longrightarrow> (\<exists>c. map_of (feature_contracts (register_feature_contract now c0 r)) a = Some c
                       \<and> declares c \<and> ds = remdups (the (dependencies c)))"
  using assms
  by (auto simp add: feature_contracts_register graph_register declares_stamp
      split: if_splits)

lemma graph_is_held:
  "\<forall>a ds. map_of (dependency_graph r) a = Some ds
       \<longrightarrow> (\<exists>c. map_of (feature_contracts r) a = Some c \<and> declares c
                 \<and> ds = remdups (the (dependencies c))) \<Longrightarrow>
   dependencies_kept (map snd calls) \<Longrightarrow>
   \<forall>c' \<in> set (map snd calls).
      map_of (dependency_graph r) (feature_name c') \<noteq> None \<longrightarrow> declares c' \<Longrightarrow>
   \<forall>a ds. map_of (dependency_graph (register_all calls r)) a = Some ds
       \<longrightarrow> (\<exists>c. map_of (feature_contracts (register_all calls r)) a = Some c \<and> declares c
                 \<and> ds = remdups (the (dependencies c)))"
  unfolding register_all_def
proof (induction calls arbitrary: r)
  case Nil
  then show ?case by simp
next
  case (Cons call calls)
  obtain now c0 where call: "call = (now, c0)" by (cases call)
  let ?r = "register_feature_contract now c0 r"
  have first: "declares c0 \<or> map_of (dependency_graph r) (feature_name c0) = None"
    using Cons.prems(3) by (auto simp add: call)
  have inv: "\<forall>a ds. map_of (dependency_graph ?r) a = Some ds
             \<longrightarrow> (\<exists>c. map_of (feature_contracts ?r) a = Some c \<and> declares c
                       \<and> ds = remdups (the (dependencies c)))"
    by (rule graph_is_held_register [OF Cons.prems(1) first])
  have kept: "dependencies_kept (map snd calls)"
    using Cons.prems(2) by (simp add: call)
  have later: "\<forall>c' \<in> set (map snd calls).
      map_of (dependency_graph ?r) (feature_name c') \<noteq> None \<longrightarrow> declares c'"
  proof (intro ballI impI)
    fix c' assume c': "c' \<in> set (map snd calls)"
      and e: "map_of (dependency_graph ?r) (feature_name c') \<noteq> None"
    show "declares c'"
    proof (cases "declares c0 \<and> feature_name c' = feature_name c0")
      case True
      then show ?thesis using Cons.prems(2) c' by (auto simp add: call)
    next
      case False
      then have "map_of (dependency_graph r) (feature_name c') \<noteq> None"
        using e by (auto simp add: graph_register split: if_splits)
      then show ?thesis using Cons.prems(3) c' by (auto simp add: call)
    qed
  qed
  show ?case
    using Cons.IH [OF inv kept later] by (simp add: call)
qed

lemma graph_dependency_declared:
  assumes "\<forall>a ds. map_of (dependency_graph r) a = Some ds
             \<longrightarrow> (\<exists>c. map_of (feature_contracts r) a = Some c \<and> declares c
                       \<and> ds = remdups (the (dependencies c)))"
    and "dep_edge (dependency_graph r) a b"
  shows "declared_dependency r a b"
proof -
  from assms(2) obtain ds where g: "map_of (dependency_graph r) a = Some ds" and b: "b \<in> set ds"
    by (auto simp add: dep_edge_iff)
  from assms(1) g obtain c where c: "map_of (feature_contracts r) a = Some c"
    and d: "declares c" and ds: "ds = remdups (the (dependencies c))" by blast
  from d obtain deps where "dependencies c = Some deps"
    by (auto simp add: declares_def split: option.splits)
  with c b ds show ?thesis by (simp add: declared_dependency_def)
qed

lemma distinct_dependencies_kept:
  "distinct (map feature_name cs) \<Longrightarrow> dependencies_kept cs"
  by (induction cs) (auto simp add: image_iff)

text \<open>
  C5 (as amended). For a registry built by any sequence of registrations,
  \<open>validate_cross_stack_consistency\<close> returns (the recursion of the cycle check finishes
  within the depth bound) and names in \<open>dependency_conflicts\<close> every feature that lies on a
  cycle of the dependencies declared by the contracts the registry holds. If no feature
  was registered again without dependencies after a registration with dependencies (in
  particular if every feature was registered once) and the dependencies declared by the
  held contracts are acyclic, diamonds included, no circular dependency is reported: a
  call that finds no cycle leaves \<open>visited\<close> as it found it. After registering a contract
  for \<open>a\<close> that depends on \<open>b\<close> and one for \<open>b\<close> that depends on \<open>a\<close>, both are reported.
\<close>

theorem validate_consistency_reports_cycles:
  "(let r = register_all calls new_registry in
      \<exists>issues. validate_cross_stack_consistency r = Some issues
        \<and> (\<forall>f. (declared_dependency r)\<^sup>+\<^sup>+ f f
               \<longrightarrow> ''Circular dependency in '' @ f \<in> set (dependency_conflicts issues))
        \<and> (dependencies_kept (map snd calls) \<and> (\<forall>f. \<not> (declared_dependency r)\<^sup>+\<^sup>+ f f)
               \<longrightarrow> dependency_conflicts issues = []))
   \<and> (a \<noteq> b \<and> feature_name ca = a \<and> dependencies ca = Some da \<and> b \<in> set da
        \<and> feature_name cb = b \<and> dependencies cb = Some db \<and> a \<in> set db
      \<longrightarrow> (let r = register_feature_contract t2 cb
                      (register_feature_contract t1 ca (register_all calls new_registry)) in
           \<exists>issues. validate_cross_stack_consistency r = Some issues
             \<and> ''Circular dependency in '' @ a \<in> set (dependency_conflicts issues)
             \<and> ''Circular dependency in '' @ b \<in> set (dependency_conflicts issues)))"
proof (intro conjI impI)
  let ?r0 = "register_all calls new_registry"
  have d0: "distinct (map fst (dependency_graph ?r0))"
    by (rule dependency_graph_distinct) (simp add: new_registry_def)
  from validate_spec [OF d0] obtain issues where
    v: "validate_cross_stack_consistency ?r0 = Some issues"
    and sound: "acyclic_deps (dependency_graph ?r0) \<longrightarrow> dependency_conflicts issues = []"
    and complete: "\<forall>f. (dep_edge (dependency_graph ?r0))\<^sup>+\<^sup>+ f f
                  \<longrightarrow> ''Circular dependency in '' @ f \<in> set (dependency_conflicts issues)"
    by blast
  have held: "\<forall>a c. map_of (feature_contracts ?r0) a = Some c \<and> declares c
       \<longrightarrow> map_of (dependency_graph ?r0) a = Some (remdups (the (dependencies c)))"
    by (rule held_in_graph) (simp add: new_registry_def)
  have c1: "''Circular dependency in '' @ f \<in> set (dependency_conflicts issues)"
    if "(declared_dependency ?r0)\<^sup>+\<^sup>+ f f" for f
  proof -
    have "(dep_edge (dependency_graph ?r0))\<^sup>+\<^sup>+ f f"
      using that by (rule tranclp_sub [rotated]) (rule declared_dependency_in_graph [OF held])
    with complete show ?thesis by blast
  qed
  have c2: "dependency_conflicts issues = []"
    if kept: "dependencies_kept (map snd calls)"
      and acyc: "\<forall>f. \<not> (declared_dependency ?r0)\<^sup>+\<^sup>+ f f"
  proof -
    have conv: "\<forall>a ds. map_of (dependency_graph ?r0) a = Some ds
       \<longrightarrow> (\<exists>c. map_of (feature_contracts ?r0) a = Some c \<and> declares c
                 \<and> ds = remdups (the (dependencies c)))"
      by (rule graph_is_held [OF _ kept]) (simp_all add: new_registry_def)
    have "\<not> (dep_edge (dependency_graph ?r0))\<^sup>+\<^sup>+ f f" for f
    proof
      assume "(dep_edge (dependency_graph ?r0))\<^sup>+\<^sup>+ f f"
      then have "(declared_dependency ?r0)\<^sup>+\<^sup>+ f f"
        by (rule tranclp_sub [rotated]) (rule graph_dependency_declared [OF conv])
      with acyc show False by blast
    qed
    then have "acyclic_deps (dependency_graph ?r0)" by (simp add: acyclic_deps_def)
    with sound show ?thesis by blast
  qed
  show "let r = register_all calls new_registry in
      \<exists>issues. validate_cross_stack_consistency r = Some issues
        \<and> (\<forall>f. (declared_dependency r)\<^sup>+\<^sup>+ f f
               \<longrightarrow> ''Circular dependency in '' @ f \<in> set (dependency_conflicts issues))
        \<and> (dependencies_kept (map snd calls) \<and> (\<forall>f. \<not> (declared_dependency r)\<^sup>+\<^sup>+ f f)
               \<longrightarrow> dependency_conflicts issues = [])"
    unfolding Let_def using v c1 c2 by blast
  assume h: "a \<noteq> b \<and> feature_name ca = a \<and> dependencies ca = Some da \<and> b \<in> set da
        \<and> feature_name cb = b \<and> dependencies cb = Some db \<and> a \<in> set db"
  let ?r = "register_feature_contract t2 cb
              (register_feature_contract t1 ca (register_all calls new_registry))"
  have d: "distinct (map fst (dependency_graph ?r))"
    by (intro dependency_graph_register_distinct d0)
  have ca: "(dep_edge (dependency_graph ?r))\<^sup>+\<^sup>+ a a"
    using h by (intro mutual_dependency_is_cycle) auto
  have "dep_edge (dependency_graph ?r) b a \<and> dep_edge (dependency_graph ?r) a b"
  proof -
    from h have da: "da \<noteq> []" and db: "db \<noteq> []" by auto
    have g: "dependency_graph ?r = AList.update b (remdups db)
               (AList.update a (remdups da) (dependency_graph (register_all calls new_registry)))"
      using h da db by (simp add: dependency_graph_register)
    show ?thesis using h by (simp add: g dep_edge_iff AList.update_conv')
  qed
  then have cb: "(dep_edge (dependency_graph ?r))\<^sup>+\<^sup>+ b b"
    by (meson tranclp.intros)
  from validate_spec[OF d] ca cb
  show "let r = ?r in
           \<exists>issues. validate_cross_stack_consistency r = Some issues
             \<and> ''Circular dependency in '' @ a \<in> set (dependency_conflicts issues)
             \<and> ''Circular dependency in '' @ b \<in> set (dependency_conflicts issues)"
    unfolding Let_def by blast
qed

theorem validate_consistency_reports_cycles_witness:
  "(\<exists>issues. validate_cross_stack_consistency (register_all
       [(''t1'', mk_contract ''A'' [] (Some [''B'', ''C''])),
        (''t2'', mk_contract ''B'' [] (Some [''D''])),
        (''t3'', mk_contract ''C'' [] (Some [''D''])),
        (''t4'', mk_contract ''D'' [] None)] new_registry) = Some issues
      \<and> dependency_conflicts issues = [])
   \<and> (\<exists>issues. validate_cross_stack_consistency
        (register_feature_contract ''t6'' (mk_contract ''Y'' [] (Some [''X'']))
          (register_feature_contract ''t5'' (mk_contract ''X'' [] (Some [''Y'']))
            (register_all
              [(''t1'', mk_contract ''A'' [] (Some [''B'', ''C''])),
               (''t2'', mk_contract ''B'' [] (Some [''D''])),
               (''t3'', mk_contract ''C'' [] (Some [''D''])),
               (''t4'', mk_contract ''D'' [] None)] new_registry))) = Some issues
      \<and> ''Circular dependency in X'' \<in> set (dependency_conflicts issues)
      \<and> ''Circular dependency in Y'' \<in> set (dependency_conflicts issues))"
proof -
  let ?calls = "[(''t1'', mk_contract ''A'' [] (Some [''B'', ''C''])),
        (''t2'', mk_contract ''B'' [] (Some [''D''])),
        (''t3'', mk_contract ''C'' [] (Some [''D''])),
        (''t4'', mk_contract ''D'' [] None)]"
  have kept: "dependencies_kept (map snd ?calls)"
    by (simp add: mk_contract_def declares_def)
  have held: "map (\<lambda>(f, c). (f, dependencies c))
                (feature_contracts (register_all ?calls new_registry)) =
             [(''A'', Some [''B'', ''C'']), (''B'', Some [''D'']), (''C'', Some [''D'']),
              (''D'', None)]"
    by (simp add: register_all_def register_feature_contract_def mk_contract_def
        new_registry_def Let_def)
  have edge: "declared_dependency (register_all ?calls new_registry) x y \<longleftrightarrow>
                (case map_of (map (\<lambda>(f, c). (f, dependencies c))
                       (feature_contracts (register_all ?calls new_registry))) x of
                   None \<Rightarrow> False | Some None \<Rightarrow> False | Some (Some deps) \<Rightarrow> y \<in> set deps)" for x y
    by (simp add: declared_dependency_def map_of_map split: option.splits)
  have acyc: "\<not> (declared_dependency (register_all ?calls new_registry))\<^sup>+\<^sup>+ f f" for f
    by (rule tranclp_rank
          [where rank = "\<lambda>s. if s = ''A'' then 2 else if s = ''B'' \<or> s = ''C'' then 1 else 0"])
       (auto simp add: edge held split: if_splits)
  have prem: "''X'' \<noteq> ''Y'' \<and> feature_name (mk_contract ''X'' [] (Some [''Y''])) = ''X''
      \<and> dependencies (mk_contract ''X'' [] (Some [''Y''])) = Some [''Y''] \<and> ''Y'' \<in> set [''Y'']
      \<and> feature_name (mk_contract ''Y'' [] (Some [''X''])) = ''Y''
      \<and> dependencies (mk_contract ''Y'' [] (Some [''X''])) = Some [''X''] \<and> ''X'' \<in> set [''X'']"
    by (simp add: mk_contract_def)
  note th = validate_consistency_reports_cycles
      [of ?calls "''X''" "''Y''" "mk_contract ''X'' [] (Some [''Y''])" "[''Y'']"
          "mk_contract ''Y'' [] (Some [''X''])" "[''X'']" "''t6''" "''t5''", unfolded Let_def]
  from th kept acyc have one: "\<exists>issues. validate_cross_stack_consistency
      (register_all ?calls new_registry) = Some issues \<and> dependency_conflicts issues = []"
    by blast
  from th prem have two: "\<exists>issues. validate_cross_stack_consistency
        (register_feature_contract ''t6'' (mk_contract ''Y'' [] (Some [''X'']))
          (register_feature_contract ''t5'' (mk_contract ''X'' [] (Some [''Y'']))
            (register_all ?calls new_registry))) = Some issues
      \<and> ''Circular dependency in '' @ ''X'' \<in> set (dependency_conflicts issues)
      \<and> ''Circular dependency in '' @ ''Y'' \<in> set (dependency_conflicts issues)"
    by blast
  from one two show ?thesis by simp
qed

text \<open>
  The claim as stated fails when a feature is registered again without dependencies: its
  old entry stays in the graph. After \<open>A\<close> and \<open>B\<close>, which depended on each other, are both
  replaced by contracts that declare no dependency, the held contracts declare none, and
  both features are still reported.
\<close>

theorem stale_dependency_counterexample:
  "(let r = register_all
       [(''t1'', mk_contract ''A'' [] (Some [''B''])),
        (''t2'', mk_contract ''B'' [] (Some [''A''])),
        (''t3'', mk_contract ''A'' [] None),
        (''t4'', mk_contract ''B'' [] None)] new_registry
    in map (\<lambda>(f, c). (f, dependencies c)) (feature_contracts r) = [(''A'', None), (''B'', None)]
     \<and> (\<forall>x y. \<not> declared_dependency r x y)
     \<and> map_option dependency_conflicts (validate_cross_stack_consistency r)
         = Some [''Circular dependency in A'', ''Circular dependency in B''])"
proof -
  let ?r = "register_all
       [(''t1'', mk_contract ''A'' [] (Some [''B''])),
        (''t2'', mk_contract ''B'' [] (Some [''A''])),
        (''t3'', mk_contract ''A'' [] None),
        (''t4'', mk_contract ''B'' [] None)] new_registry"
  have held: "map (\<lambda>(f, c). (f, dependencies c)) (feature_contracts ?r)
              = [(''A'', None), (''B'', None)]"
    by (simp add: register_all_def register_feature_contract_def mk_contract_def
        new_registry_def Let_def)
  have edge: "declared_dependency ?r x y \<longleftrightarrow>
                (case map_of (map (\<lambda>(f, c). (f, dependencies c)) (feature_contracts ?r)) x of
                   None \<Rightarrow> False | Some None \<Rightarrow> False | Some (Some deps) \<Rightarrow> y \<in> set deps)" for x y
    by (simp add: declared_dependency_def map_of_map split: option.splits)
  have none: "\<forall>x y. \<not> declared_dependency ?r x y"
    by (simp add: edge held)
  have g: "dependency_graph ?r = [(''A'', [''B'']), (''B'', [''A''])]"
    by (simp add: register_all_def register_feature_contract_def mk_contract_def
        new_registry_def Let_def)
  have reported: "map_option dependency_conflicts (validate_cross_stack_consistency ?r)
         = Some [''Circular dependency in A'', ''Circular dependency in B'']"
    by (simp add: validate_cross_stack_consistency_def g Let_def)
  show ?thesis
    unfolding Let_def using held none reported by simp
qed

section \<open>Event bus: subscribers are never removed\<close>

lemma safe_callback_subscribers [simp]:
  "subscribers (safe_callback event cb bus) = subscribers bus"
  by (cases cb) (simp_all add: safe_callback_def Let_def)

lemma safe_callback_invocations [simp]:
  "invocations (safe_callback event cb bus) = invocations bus @ [(cb, event)]"
  by (cases cb) (simp_all add: safe_callback_def Let_def)

lemma fold_safe_callback_subscribers [simp]:
  "subscribers (fold (safe_callback event) cbs bus) = subscribers bus"
  by (induction cbs arbitrary: bus) simp_all

lemma fold_safe_callback_invocations:
  "invocations (fold (safe_callback event) cbs bus) =
     invocations bus @ map (\<lambda>cb. (cb, event)) cbs"
  by (induction cbs arbitrary: bus) simp_all

lemma publish_subscribers [simp]:
  "subscribers (publish et payload source corr eid now fresh bus) = subscribers bus"
  by (simp add: publish_def Let_def)

lemma publish_invocations:
  "invocations (publish et payload source corr eid now fresh bus) =
     invocations bus @ map (\<lambda>cb. (cb, new_event et payload source corr eid now fresh))
                          (subscribers_of bus et)"
  by (simp add: publish_def Let_def fold_safe_callback_invocations subscribers_of_def)

lemma subscribers_of_publish:
  "subscribers_of (publish et payload source corr eid now fresh bus) et' = subscribers_of bus et'"
  by (simp add: subscribers_of_def)

lemma subscribers_of_subscribe:
  "subscribers_of (subscribe et cb bus) et' =
     (if et' = et then subscribers_of bus et @ [cb] else subscribers_of bus et')"
  by (simp add: subscribe_def subscribers_of_def AList.update_conv')

lemma subscribers_of_wait_for_event:
  "subscribers_of (wait_for_event et timeout bus) et' =
     (if et' = et then subscribers_of bus et @ [Waiter (length (futures bus))]
      else subscribers_of bus et')"
  by (simp add: wait_for_event_def subscribers_of_subscribe)
     (simp add: subscribers_of_def)

lemma timeout_future_subscribers [simp]:
  "subscribers (timeout_future fid timeout bus) = subscribers bus"
  by (simp add: timeout_future_def)

lemma subscribers_of_timeout_future:
  "subscribers_of (timeout_future fid timeout bus) et = subscribers_of bus et"
  by (simp add: subscribers_of_def)

lemma bus_step_extends:
  "\<exists>extra. subscribers_of (bus_step op bus) et = subscribers_of bus et @ extra"
  by (cases op)
     (simp_all add: subscribers_of_subscribe subscribers_of_wait_for_event
        subscribers_of_publish subscribers_of_timeout_future)

lemma bus_run_extends:
  "\<exists>extra. subscribers_of (bus_run ops bus) et = subscribers_of bus et @ extra"
  unfolding bus_run_def
proof (induction ops arbitrary: bus)
  case Nil
  show ?case by simp
next
  case (Cons op ops)
  from bus_step_extends[of op bus et] obtain e1 where
    e1: "subscribers_of (bus_step op bus) et = subscribers_of bus et @ e1" by blast
  from Cons.IH[of "bus_step op bus"] obtain e2 where
    "subscribers_of (fold bus_step ops (bus_step op bus)) et =
       subscribers_of (bus_step op bus) et @ e2" by blast
  with e1 show ?case by simp
qed

text \<open>
  C10. No operation of the event bus removes a subscriber: over any sequence of
  \<open>subscribe\<close>, \<open>publish\<close>, \<open>wait_for_event\<close> calls and timeouts, the subscriber list of
  every event type only grows at its end. A \<open>wait_for_event\<close> call appends one subscriber
  (the closure over its future), which is still subscribed after any later operations,
  the resolution or the timeout of its future included, and is called by a later
  \<open>publish\<close> of that event type.
\<close>

theorem subscribers_never_removed:
  "(\<exists>extra. subscribers_of (bus_run ops bus) et = subscribers_of bus et @ extra)
   \<and> length (subscribers_of bus et) \<le> length (subscribers_of (bus_run ops bus) et)
   \<and> (let waiter = Waiter (length (futures bus));
          bus1 = wait_for_event et timeout bus;
          bus2 = bus_run ops bus1;
          bus3 = publish et payload source corr eid now fresh bus2
      in subscribers_of bus1 et = subscribers_of bus et @ [waiter]
       \<and> waiter \<in> set (subscribers_of bus2 et)
       \<and> invocations bus3 =
           invocations bus2 @ map (\<lambda>cb. (cb, new_event et payload source corr eid now fresh))
                                  (subscribers_of bus2 et)
       \<and> (waiter, new_event et payload source corr eid now fresh)
            \<in> set (drop (length (invocations bus2)) (invocations bus3)))"
proof -
  from bus_run_extends[of ops bus et] obtain extra where
    e: "subscribers_of (bus_run ops bus) et = subscribers_of bus et @ extra" by blast
  let ?w = "Waiter (length (futures bus))"
  let ?bus1 = "wait_for_event et timeout bus"
  have s1: "subscribers_of ?bus1 et = subscribers_of bus et @ [?w]"
    by (simp add: subscribers_of_wait_for_event)
  from bus_run_extends[of ops ?bus1 et] obtain extra' where
    "subscribers_of (bus_run ops ?bus1) et = subscribers_of ?bus1 et @ extra'" by blast
  with s1 have mem: "?w \<in> set (subscribers_of (bus_run ops ?bus1) et)" by simp
  show ?thesis
    using e s1 mem by (simp add: Let_def publish_invocations)
qed

theorem subscribers_never_removed_witness:
  "subscribers_of (wait_for_event ''X'' 1 new_event_bus) ''X'' = [Waiter 0]
   \<and> Waiter 0 \<in> set (subscribers_of
        (bus_run [Publish ''X'' ''{}'' ''system'' None ''e1'' ''t1'' ''c1'', TimeoutElapses 0 1]
           (wait_for_event ''X'' 1 new_event_bus)) ''X'')
   \<and> (Waiter 0, new_event ''X'' ''{}'' ''system'' None ''e2'' ''t2'' ''c2'')
        \<in> set (drop
             (length (invocations
                (bus_run [Publish ''X'' ''{}'' ''system'' None ''e1'' ''t1'' ''c1'',
                          TimeoutElapses 0 1]
                   (wait_for_event ''X'' 1 new_event_bus))))
             (invocations (publish ''X'' ''{}'' ''system'' None ''e2'' ''t2'' ''c2''
                (bus_run [Publish ''X'' ''{}'' ''system'' None ''e1'' ''t1'' ''c1'',
                          TimeoutElapses 0 1]
                   (wait_for_event ''X'' 1 new_event_bus)))))"
proof -
  have empty: "subscribers_of new_event_bus ''X'' = []" "futures new_event_bus = []"
    by (simp_all add: subscribers_of_def new_event_bus_def)
  note th = subscribers_never_removed
    [of "[Publish ''X'' ''{}'' ''system'' None ''e1'' ''t1'' ''c1'', TimeoutElapses 0 1]"
        new_event_bus "''X''" 1 "''{}''" "''system''" None "''e2''" "''t2''" "''c2''",
     unfolded Let_def empty]
  from th show ?thesis by simp
qed

section \<open>Quality validator: unbalanced braces\<close>

lemma fold_checks:
  "fold (\<lambda>(failed, penalty, message) (score, issues).
           if failed then (score - penalty, issues @ [message]) else (score, issues))
        checks (s :: real, is) =
     (s - sum_list (map (fst \<circ> snd) (filter fst checks)),
      is @ map (snd \<circ> snd) (filter fst checks))"
  by (induction checks arbitrary: s "is") (auto simp: algebra_simps)

lemma apply_checks_eq:
  "apply_checks checks =
     (10 - sum_list (map (fst \<circ> snd) (filter fst checks)),
      map (snd \<circ> snd) (filter fst checks))"
  unfolding apply_checks_def by (simp add: fold_checks)

lemma sum_list_penalties_ge:
  fixes checks :: "check list"
  assumes "\<forall>c\<in>set checks. 0 \<le> fst (snd c)" and "(True, p, m) \<in> set checks"
  shows "p \<le> sum_list (map (fst \<circ> snd) (filter fst checks))"
  using assms
proof (induction checks)
  case Nil
  then show ?case by simp
next
  case (Cons c cs)
  have nonneg: "0 \<le> sum_list (map (fst \<circ> snd) (filter fst cs))"
    using Cons.prems(1) by (intro sum_list_nonneg) auto
  show ?case
  proof (cases "c = (True, p, m)")
    case True
    with nonneg show ?thesis by (simp add: comp_def)
  next
    case False
    with Cons.prems have "(True, p, m) \<in> set cs" by simp
    with Cons.IH Cons.prems(1) have "p \<le> sum_list (map (fst \<circ> snd) (filter fst cs))"
      by (simp add: comp_def)
    moreover have "0 \<le> fst (snd c)" using Cons.prems(1) by simp
    ultimately show ?thesis by (cases "fst c") (auto simp: comp_def)
  qed
qed

lemma node_checks_nonneg: "\<forall>c\<in>set (node_checks file_path body). 0 \<le> fst (snd c)"
  by (simp add: node_checks_def Let_def)

lemma bracket_check_in_node_checks:
  "(py_count body (CHR ''{'') \<noteq> py_count body (CHR ''}''), 2.0,
    ''CRITICAL: Bracket mismatch in '' @ file_path) \<in> set (node_checks file_path body)"
  by (simp add: node_checks_def Let_def)

lemma single_file_bracket_mismatch:
  assumes "\<not> endswith file_path ''.sql''" and "\<not> endswith file_path ''.env.example''"
    and "py_count body (CHR ''{'') \<noteq> py_count body (CHR ''}'')"
  shows "''CRITICAL: Bracket mismatch in '' @ file_path
           \<in> set (fs_issues (validate_single_file_quality file_path body))"
    and "fs_score (validate_single_file_quality file_path body) \<le> 8"
proof -
  let ?checks = "node_checks file_path body"
  have mem: "(True, 2.0, ''CRITICAL: Bracket mismatch in '' @ file_path) \<in> set ?checks"
    using bracket_check_in_node_checks[of body file_path] assms(3) by simp
  have v: "validate_single_file_quality file_path body =
             \<lparr>fs_score = max 0 (10 - sum_list (map (fst \<circ> snd) (filter fst ?checks))),
              fs_issues = map (snd \<circ> snd) (filter fst ?checks), fs_file_path = file_path\<rparr>"
    using assms(1,2) by (simp add: validate_single_file_quality_def apply_checks_eq)
  from mem have "(True, 2.0, ''CRITICAL: Bracket mismatch in '' @ file_path)
                   \<in> set (filter fst ?checks)" by simp
  then have "''CRITICAL: Bracket mismatch in '' @ file_path
               \<in> set (map (snd \<circ> snd) (filter fst ?checks))"
    by force
  then show "''CRITICAL: Bracket mismatch in '' @ file_path
           \<in> set (fs_issues (validate_single_file_quality file_path body))"
    by (simp add: v)
  from sum_list_penalties_ge[OF node_checks_nonneg mem]
  have "2 \<le> sum_list (map (fst \<circ> snd) (filter fst ?checks))" by simp
  then show "fs_score (validate_single_file_quality file_path body) \<le> 8"
    by (simp add: v)
qed

text \<open>
  C8 (as amended). For a file map holding a single file whose path does not end in
  \<open>.sql\<close> or \<open>.env.example\<close> (such files are not validated at all) and whose body has
  unequal counts of opening and closing braces, the validator records the issue
  "CRITICAL: Bracket mismatch in <path>" for that file, and the file's score, hence the
  overall score, is at most \<open>10 - 2.0 = 8.0\<close>.
\<close>

theorem bracket_mismatch_is_critical:
  assumes "\<not> endswith file_path ''.sql''" and "\<not> endswith file_path ''.env.example''"
    and "py_count body (CHR ''{'') \<noteq> py_count body (CHR ''}'')"
  shows "cq_file_scores (validate_code_quality [(file_path, body)]) =
           [(file_path, validate_single_file_quality file_path body)]
       \<and> ''CRITICAL: Bracket mismatch in '' @ file_path
           \<in> set (fs_issues (validate_single_file_quality file_path body))
       \<and> ''CRITICAL: Bracket mismatch in '' @ file_path
           \<in> set (cq_issues (validate_code_quality [(file_path, body)]))
       \<and> startswith (''CRITICAL: Bracket mismatch in '' @ file_path) ''CRITICAL''
       \<and> fs_score (validate_single_file_quality file_path body) \<le> 8
       \<and> cq_overall_score (validate_code_quality [(file_path, body)]) \<le> 8
       \<and> 1 \<le> critical_issues_count (cq_metrics (validate_code_quality [(file_path, body)]))"
proof -
  note s = single_file_bracket_mismatch[OF assms]
  have pre: "startswith (''CRITICAL: Bracket mismatch in '' @ file_path) ''CRITICAL''"
    by simp
  have "''CRITICAL: Bracket mismatch in '' @ file_path
          \<in> set (filter (\<lambda>i. startswith i ''CRITICAL'')
                   (fs_issues (validate_single_file_quality file_path body)))"
    using s(1) pre by simp
  then have "0 < length (filter (\<lambda>i. startswith i ''CRITICAL'')
                   (fs_issues (validate_single_file_quality file_path body)))"
    by (intro length_pos_if_in_set)
  then have "Suc 0 \<le> length (filter (\<lambda>i. startswith i ''CRITICAL'')
                   (fs_issues (validate_single_file_quality file_path body)))"
    by (rule Suc_leI)
  then show ?thesis
    using s pre by (simp add: validate_code_quality_def Let_def)
qed

theorem bracket_mismatch_is_critical_witness:
  "''CRITICAL: Bracket mismatch in src/app.js''
     \<in> set (cq_issues (validate_code_quality [(''src/app.js'', ''function f() {'')]))
   \<and> fs_score (validate_single_file_quality ''src/app.js'' ''function f() {'') \<le> 8
   \<and> cq_overall_score (validate_code_quality [(''src/app.js'', ''function f() {'')]) \<le> 8"
  using bracket_mismatch_is_critical[of "''src/app.js''" "''function f() {''"]
  by (simp add: endswith_def py_count_def)

text \<open>
  The claim as stated fails for the files the validator skips: a migration with an
  unbalanced brace gets the full score and no issue.
\<close>

theorem bracket_mismatch_sql_counterexample:
  "py_count ''CREATE TABLE users ({'' (CHR ''{'') \<noteq> py_count ''CREATE TABLE users ({'' (CHR ''}'')
   \<and> cq_issues (validate_code_quality
        [(''database/migrations/001_create_users.sql'', ''CREATE TABLE users ({'')]) = []
   \<and> fs_score (validate_single_file_quality
        ''database/migrations/001_create_users.sql'' ''CREATE TABLE users ({'') = 10"
  by (simp add: validate_code_quality_def validate_single_file_quality_def endswith_def
      py_count_def Let_def)

section \<open>Parsing the oracle's answer\<close>

lemma update_not_empty: "AList.update k v al \<noteq> []"
  by (cases al) (auto simp add: AList.update.simps)

lemma fold_update_not_empty:
  "d \<noteq> [] \<Longrightarrow> fold (\<lambda>(k, v). AList.update k v) kvs d \<noteq> []"
  by (induction kvs arbitrary: d) (auto simp add: update_not_empty split: prod.splits)

lemma py_dict_empty_iff: "py_dict kvs = [] \<longleftrightarrow> kvs = []"
proof (cases kvs)
  case Nil
  then show ?thesis by (simp add: py_dict_def)
next
  case (Cons kv rest)
  obtain k v where kv: "kv = (k, v)" by (cases kv)
  have "fold (\<lambda>(k, v). AList.update k v) rest (AList.update k v []) \<noteq> []"
    by (rule fold_update_not_empty) (rule update_not_empty)
  then show ?thesis by (simp add: py_dict_def Cons kv)
qed

lemma py_dict_Nil: "py_dict [] = []"
  by (simp add: py_dict_def)

lemma str_dict_of_empty_iff: "str_dict_of parsed = Some [] \<longleftrightarrow> parsed = JObject []"
  by (cases parsed) (auto simp add: str_dict_of_def Let_def py_dict_empty_iff py_dict_Nil)

lemma fallback_not_empty: "extract_code_blocks_fallback findall response \<noteq> []"
  by (simp add: extract_code_blocks_fallback_def Let_def)

text \<open>
  Claim C9. Response parsing does not always return a non-empty file map. The text-block
  extraction never returns an empty map (it ends in the three-file skeleton), but it is
  reached only when the JSON reading fails or gives something other than an object of
  strings. The parsed file map is empty exactly when the text between the first opening and
  the last closing brace of the stripped response is read by \<open>json.loads\<close> as the empty
  object: that object passes the test of being a dictionary of strings and is returned as
  it is.
\<close>

theorem parse_node_response_empty_iff:
  "parse_node_response loads findall response = [] \<longleftrightarrow>
     (\<exists>i j. index_of (CHR ''{'') (py_strip response) = Some i \<and>
            rindex_of (CHR ''}'') (py_strip response) = Some j \<and> i \<le> j \<and>
            loads (take (j + 1 - i) (drop i (py_strip response))) = Some (JObject []))"
proof (cases "index_of (CHR ''{'') (py_strip response)")
  case None
  then show ?thesis
    by (simp add: parse_node_response_def Let_def fallback_not_empty)
next
  case (Some i)
  note i = Some
  show ?thesis
  proof (cases "rindex_of (CHR ''}'') (py_strip response)")
    case None
    then show ?thesis
      by (simp add: parse_node_response_def Let_def i fallback_not_empty)
  next
    case (Some j)
    note j = Some
    show ?thesis
    proof (cases "i \<le> j")
      case False
      then show ?thesis
        by (simp add: parse_node_response_def Let_def i j fallback_not_empty)
    next
      case True
      then have lt: "i < j + 1" by simp
      show ?thesis
      proof (cases "loads (take (j + 1 - i) (drop i (py_strip response)))")
        case None
        then show ?thesis
          using lt by (simp add: parse_node_response_def Let_def i j fallback_not_empty)
      next
        case (Some parsed)
        note parsed = Some
        show ?thesis
        proof (cases "str_dict_of parsed")
          case None
          then have "parsed \<noteq> JObject []"
            using str_dict_of_empty_iff [of parsed] by auto
          then show ?thesis
            using lt None parsed
            by (simp add: parse_node_response_def Let_def i j fallback_not_empty)
        next
          case (Some files)
          note files = Some
          have "files = [] \<longleftrightarrow> parsed = JObject []"
            using str_dict_of_empty_iff [of parsed] by (simp add: files)
          then show ?thesis
            using lt parsed
            by (simp add: parse_node_response_def Let_def i j files)
        qed
      qed
    qed
  qed
qed

theorem parse_node_response_empty_iff_witness:
  "parse_node_response (\<lambda>s. if s = ''{}'' then Some (JObject []) else None) (\<lambda>s. []) ''{}'' = []"
proof -
  have "index_of (CHR ''{'') (py_strip ''{}'') = Some 0"
    by (simp add: py_strip_def is_space_def)
  moreover have "rindex_of (CHR ''}'') (py_strip ''{}'') = Some 1"
    by (simp add: py_strip_def is_space_def rindex_of_def)
  moreover have "take (1 + 1 - 0) (drop 0 (py_strip ''{}'')) = ''{}''"
    by (simp add: py_strip_def is_space_def)
  ultimately show ?thesis
    using parse_node_response_empty_iff
            [of "\<lambda>s. if s = ''{}'' then Some (JObject []) else None" "\<lambda>s. []" "''{}''"]
    by auto
qed

section \<open>The generation flow\<close>

lemma upt_0_3: "[0 ..< 3] = [0, 1, 2]"
  by (simp add: upt_rec)























section \<open>A raising oracle\<close>







lemma retry_raises_iff:
  assumes "claude_client h = Some client"
  shows "(\<exists>e. fst (claude_request_with_retry h) = Inl e) \<longleftrightarrow>
         (\<forall>k < 3. \<exists>e. client (api_calls h + k) = Inl e)"
proof -
  have three: "(\<forall>k < 3. P k) \<longleftrightarrow> P 0 \<and> P 1 \<and> P (2 :: nat)" for P
  proof
    assume a: "P 0 \<and> P 1 \<and> P 2"
    show "\<forall>k < 3. P k"
    proof (intro allI impI)
      fix k :: nat assume "k < 3"
      then have "k = 0 \<or> k = 1 \<or> k = 2" by arith
      with a show "P k" by auto
    qed
  qed simp
  show ?thesis
    unfolding three
    by (cases "client (api_calls h)"; cases "client (Suc (api_calls h))";
        cases "client (Suc (Suc (api_calls h)))")
       (auto simp add: claude_request_with_retry_def upt_0_3 messages_create_def assms
          numeral_2_eq_2)
qed







end
